theory Spec2Isabelle
  imports Complex_Main "HOL-Library.AList" "HOL-Library.Sublist"
begin

section \<open>Configuration\<close>

text \<open>
  The constants at the top of \<^verbatim>\<open>index.js\<close>. Times are epoch milliseconds as
  returned by \<^verbatim>\<open>Date.now()\<close>: integers far below \<open>2^53\<close>, where the arithmetic
  of JavaScript numbers is exact, so they are modelled as \<^typ>\<open>int\<close>.
\<close>

definition WINDOW_MS :: int where
  "WINDOW_MS = 60 * 1000"

definition MAX_REQUESTS :: nat where
  "MAX_REQUESTS = 10"

definition BAN_THRESHOLD :: nat where
  "BAN_THRESHOLD = 3"

definition BAN_DURATION_MS :: int where
  "BAN_DURATION_MS = 5 * 60 * 1000"

text \<open>\<^verbatim>\<open>Math.ceil(x / d)\<close> for an integer \<open>x\<close> and a positive integer \<open>d\<close>.\<close>

definition ceil_div :: "int \<Rightarrow> int \<Rightarrow> int" where
  "ceil_div x d = - ((- x) div d)"

section \<open>Client records\<close>

record client_record =
  requests :: "int list"
  violations :: nat
  banned :: bool
  bannedUntil :: int

definition initRecord :: client_record where
  "initRecord = \<lparr> requests = [], violations = 0, banned = False, bannedUntil = 0 \<rparr>"

text \<open>
  \<^verbatim>\<open>pruneOldRequests\<close>: the \<^verbatim>\<open>for\<close> loop pushes every timestamp above the
  cutoff onto \<^verbatim>\<open>fresh\<close>. The function reads the clock itself; the value it
  reads is the parameter \<open>t\<close>.
\<close>

fun prune_loop :: "int \<Rightarrow> int list \<Rightarrow> int list \<Rightarrow> int list" where
  "prune_loop cutoff [] fresh = fresh"
| "prune_loop cutoff (x # xs) fresh =
     prune_loop cutoff xs (if x > cutoff then fresh @ [x] else fresh)"

definition pruneOldRequests :: "int \<Rightarrow> client_record \<Rightarrow> client_record" where
  "pruneOldRequests t record =
     record \<lparr> requests := prune_loop (t - WINDOW_MS) (requests record) [] \<rparr>"

section \<open>The client store as a JavaScript object\<close>

text \<open>
  \<^verbatim>\<open>clientStore\<close> is an object literal \<^verbatim>\<open>{}\<close>, indexed by the client key. Its own
  properties are the client records, kept here in insertion order. A property read
  \<^verbatim>\<open>clientStore[key]\<close> that finds no own property continues along the prototype
  chain, so it sees the members of \<^verbatim>\<open>Object.prototype\<close>; the accessor
  \<^verbatim>\<open>__proto__\<close> reads and writes the prototype itself. The code always stores
  records, so the prototype is either the original \<^verbatim>\<open>Object.prototype\<close>
  (\<open>None\<close>) or a record that was assigned to \<^verbatim>\<open>clientStore["__proto__"]\<close>.
\<close>

record client_store =
  own :: "(string \<times> client_record) list"
  proto :: "client_record option"

definition clientStore_init :: client_store where
  "clientStore_init = \<lparr> own = [], proto = None \<rparr>"

text \<open>
  A value read from the store: \<^verbatim>\<open>undefined\<close>, a client record, or anything else
  (a function, an array, a number, a boolean), of which only the truthiness matters:
  it has no \<^verbatim>\<open>requests\<close> and no \<^verbatim>\<open>banned\<close> property.
\<close>

datatype js_value = Undefined | Rec client_record | Other bool

fun truthy :: "js_value \<Rightarrow> bool" where
  "truthy Undefined = False"
| "truthy (Rec r) = True"
| "truthy (Other b) = b"

definition object_prototype_names :: "string list" where
  "object_prototype_names =
     [''constructor'', ''__defineGetter__'', ''__defineSetter__'', ''hasOwnProperty'',
      ''__lookupGetter__'', ''__lookupSetter__'', ''isPrototypeOf'',
      ''propertyIsEnumerable'', ''toString'', ''valueOf'', ''__proto__'',
      ''toLocaleString'']"

definition record_field_names :: "string list" where
  "record_field_names = [''requests'', ''violations'', ''banned'', ''bannedUntil'']"

definition inherited :: "client_record option \<Rightarrow> string \<Rightarrow> js_value" where
  "inherited p key =
     (if key = ''__proto__'' then (case p of None \<Rightarrow> Other True | Some r \<Rightarrow> Rec r)
      else if p \<noteq> None \<and> key = ''requests'' then Other True
      else if p \<noteq> None \<and> key = ''violations'' then Other (violations (the p) \<noteq> 0)
      else if p \<noteq> None \<and> key = ''banned'' then Other (banned (the p))
      else if p \<noteq> None \<and> key = ''bannedUntil'' then Other (bannedUntil (the p) \<noteq> 0)
      else if key \<in> set object_prototype_names then Other True
      else Undefined)"

definition get_prop :: "client_store \<Rightarrow> string \<Rightarrow> js_value" where
  "get_prop s key =
     (case map_of (own s) key of Some r \<Rightarrow> Rec r | None \<Rightarrow> inherited (proto s) key)"

text \<open>
  \<^verbatim>\<open>clientStore[key] = r\<close>, and the write-back of a record that the code mutates
  in place (no record is ever referenced from two places).
\<close>

definition set_prop :: "client_store \<Rightarrow> string \<Rightarrow> client_record \<Rightarrow> client_store" where
  "set_prop s key r =
     (if key = ''__proto__'' \<and> map_of (own s) key = None then s \<lparr> proto := Some r \<rparr>
      else s \<lparr> own := AList.update key r (own s) \<rparr>)"

definition delete_prop :: "client_store \<Rightarrow> string \<Rightarrow> client_store" where
  "delete_prop s key = s \<lparr> own := AList.delete key (own s) \<rparr>"

text \<open>\<^verbatim>\<open>Object.keys(clientStore)\<close>: the own enumerable properties.\<close>

definition object_keys :: "client_store \<Rightarrow> string list" where
  "object_keys s = map fst (own s)"

text \<open>
  \<^verbatim>\<open>for (key in clientStore)\<close>: the own properties, then the enumerable
  properties of the prototype that no own property shadows. The members of
  \<^verbatim>\<open>Object.prototype\<close> are not enumerable; the fields of a record are.
  JavaScript lists integer-like keys before the others; the loop that uses this list
  handles every key on its own, and the model keeps the insertion order.
\<close>

definition for_in_keys :: "client_store \<Rightarrow> string list" where
  "for_in_keys s =
     object_keys s @
     (case proto s of None \<Rightarrow> []
      | Some r \<Rightarrow> filter (\<lambda>k. k \<notin> set (object_keys s)) record_field_names)"

section \<open>The rate limiter core\<close>

datatype error = TypeError

text \<open>
  The four message templates of the returned object: \<^verbatim>\<open>"Client is banned. Too many
  violations."\<close>, \<^verbatim>\<open>"Too many violations. Client banned for 5 minutes."\<close>,
  \<^verbatim>\<open>"Rate limit exceeded. n violation(s) remaining before ban."\<close> with its number
  \<open>n\<close>, and \<^verbatim>\<open>"Request allowed."\<close>. The field \<open>res_violations\<close> is the property
  \<^verbatim>\<open>violations\<close> of the returned object, which only the 429 answer has.
\<close>

datatype message =
    Msg_banned
  | Msg_ban_activated
  | Msg_rate_limited int
  | Msg_allowed

record decision =
  allowed :: bool
  status :: nat
  remaining :: int
  resetIn :: int
  res_violations :: "nat option"
  message :: message

text \<open>
  \<^verbatim>\<open>record.requests[0] || current\<close>: the first timestamp, or \<open>current\<close> when
  there is none or when it is the falsy number \<open>0\<close>.
\<close>

definition oldest_or :: "int list \<Rightarrow> int \<Rightarrow> int" where
  "oldest_or rs current =
     (case rs of [] \<Rightarrow> current | x # _ \<Rightarrow> if x = 0 then current else x)"

text \<open>
  The second half of \<^verbatim>\<open>checkRateLimit\<close> (from the pruning on), for the record
  object \<open>record0\<close> held under \<open>clientKey\<close>. The clock value \<open>t\<close> is the one
  that \<^verbatim>\<open>pruneOldRequests\<close> reads.
\<close>

definition limit_window ::
  "string \<Rightarrow> int \<Rightarrow> int \<Rightarrow> client_store \<Rightarrow> client_record \<Rightarrow> decision \<times> client_store" where
  "limit_window clientKey current t s record0 =
     (let record = pruneOldRequests t record0;
          count = length (requests record)
      in if count \<ge> MAX_REQUESTS then
           let record = record \<lparr> violations := violations record + 1 \<rparr>
           in if violations record \<ge> BAN_THRESHOLD then
                (\<lparr> allowed = False, status = 403, remaining = 0,
                   resetIn = ceil_div BAN_DURATION_MS 1000,
                   res_violations = None, message = Msg_ban_activated \<rparr>,
                 set_prop s clientKey
                   (record \<lparr> banned := True, bannedUntil := current + BAN_DURATION_MS \<rparr>))
              else
                (\<lparr> allowed = False, status = 429, remaining = 0,
                   resetIn = ceil_div (oldest_or (requests record) current
                                        + WINDOW_MS - current) 1000,
                   res_violations = Some (violations record),
                   message = Msg_rate_limited (int BAN_THRESHOLD - int (violations record)) \<rparr>,
                 set_prop s clientKey record)
         else
           let record = record \<lparr> requests := requests record @ [current] \<rparr>
           in (\<lparr> allowed = True, status = 200,
                 remaining = int MAX_REQUESTS - int (length (requests record)),
                 resetIn = ceil_div (hd (requests record) + WINDOW_MS - current) 1000,
                 res_violations = None, message = Msg_allowed \<rparr>,
               set_prop s clientKey record))"

text \<open>
  \<^verbatim>\<open>checkRateLimit\<close>. The clock is read twice: \<open>current\<close> is the value of
  \<^verbatim>\<open>now()\<close> at the top of the function, \<open>t\<close> the value read inside
  \<^verbatim>\<open>pruneOldRequests\<close>. A value that is not a record has neither
  \<^verbatim>\<open>banned\<close> nor \<^verbatim>\<open>requests\<close>, and reading the length of \<^verbatim>\<open>undefined\<close>
  throws a \<^verbatim>\<open>TypeError\<close>, which nothing catches.
\<close>

definition checkRateLimit ::
  "string \<Rightarrow> int \<Rightarrow> int \<Rightarrow> client_store \<Rightarrow> error + decision \<times> client_store" where
  "checkRateLimit clientKey current t s0 =
     (let s = (if \<not> truthy (get_prop s0 clientKey)
               then set_prop s0 clientKey initRecord else s0)
      in case get_prop s clientKey of
           Rec record \<Rightarrow>
             if banned record then
               if current < bannedUntil record then
                 Inr (\<lparr> allowed = False, status = 403, remaining = 0,
                        resetIn = ceil_div (bannedUntil record - current) 1000,
                        res_violations = None, message = Msg_banned \<rparr>, s)
               else
                 let s = set_prop s clientKey initRecord
                 in case get_prop s clientKey of
                      Rec record \<Rightarrow> Inr (limit_window clientKey current t s record)
                    | _ \<Rightarrow> Inl TypeError
             else Inr (limit_window clientKey current t s record)
         | _ \<Rightarrow> Inl TypeError)"

section \<open>Administrative handlers\<close>

text \<open>The handlers answer with status 200 or 404; \<^verbatim>\<open>handleResetAll\<close> also
  reports the number of keys it found.\<close>

datatype response = Ok_200 | NotFound_404

definition handleUnban :: "string \<Rightarrow> client_store \<Rightarrow> response \<times> client_store" where
  "handleUnban clientKey s =
     (if \<not> truthy (get_prop s clientKey) then (NotFound_404, s)
      else (Ok_200, set_prop s clientKey initRecord))"

definition handleReset :: "string \<Rightarrow> client_store \<Rightarrow> response \<times> client_store" where
  "handleReset clientKey s =
     (if \<not> truthy (get_prop s clientKey) then (NotFound_404, s)
      else (Ok_200, delete_prop s clientKey))"

definition handleResetAll :: "client_store \<Rightarrow> nat \<times> client_store" where
  "handleResetAll s = (length (object_keys s), clientStore_init)"

section \<open>Periodic cleanup\<close>

text \<open>
  The timer callback. \<open>now_ts\<close> is the clock value read before the loop and
  \<open>pt key\<close> the value that \<^verbatim>\<open>pruneOldRequests\<close> reads while \<open>key\<close> is visited.
  The result is the counter \<^verbatim>\<open>removed\<close> and the store after the pass.
\<close>

fun cleanup_loop ::
  "int \<Rightarrow> (string \<Rightarrow> int) \<Rightarrow> string list \<Rightarrow> client_store \<Rightarrow> nat
     \<Rightarrow> error + nat \<times> client_store" where
  "cleanup_loop now_ts pt [] s removed = Inr (removed, s)"
| "cleanup_loop now_ts pt (key # keys) s removed =
     (case get_prop s key of
        Rec record0 \<Rightarrow>
          if banned record0 \<and> now_ts \<ge> bannedUntil record0 then
            cleanup_loop now_ts pt keys (delete_prop s key) (removed + 1)
          else
            let record = pruneOldRequests (pt key) record0;
                s = set_prop s key record
            in if length (requests record) = 0 \<and> violations record = 0 \<and> \<not> banned record
               then cleanup_loop now_ts pt keys (delete_prop s key) (removed + 1)
               else cleanup_loop now_ts pt keys s removed
      | _ \<Rightarrow> Inl TypeError)"

definition cleanup :: "int \<Rightarrow> (string \<Rightarrow> int) \<Rightarrow> client_store \<Rightarrow> error + nat \<times> client_store" where
  "cleanup now_ts pt s = cleanup_loop now_ts pt (for_in_keys s) s 0"

section \<open>Runs of the service\<close>

text \<open>
  What the process does between start and exit is a sequence of handler calls and
  timer callbacks on the one store, each carrying the clock values it reads. An
  uncaught \<^verbatim>\<open>TypeError\<close> ends the process, and the run with it.
\<close>

datatype event =
    Evaluate string int int
  | Sweep int "string \<Rightarrow> int"
  | Unban string
  | Reset string
  | ResetAll

fun step :: "event \<Rightarrow> client_store \<Rightarrow> error + decision option \<times> client_store" where
  "step (Evaluate key current t) s =
     (case checkRateLimit key current t s of
        Inl e \<Rightarrow> Inl e | Inr (d, s') \<Rightarrow> Inr (Some d, s'))"
| "step (Sweep now_ts pt) s =
     (case cleanup now_ts pt s of
        Inl e \<Rightarrow> Inl e | Inr (n, s') \<Rightarrow> Inr (None, s'))"
| "step (Unban key) s = Inr (None, snd (handleUnban key s))"
| "step (Reset key) s = Inr (None, snd (handleReset key s))"
| "step ResetAll s = Inr (None, snd (handleResetAll s))"

fun run :: "event list \<Rightarrow> client_store \<Rightarrow> error + client_store" where
  "run [] s = Inr s"
| "run (e # es) s = (case step e s of Inl err \<Rightarrow> Inl err | Inr (d, s') \<Rightarrow> run es s')"

text \<open>The decisions that the \<^verbatim>\<open>checkRateLimit\<close> calls of a run return, in order.\<close>

fun decisions :: "event list \<Rightarrow> client_store \<Rightarrow> decision list" where
  "decisions [] s = []"
| "decisions (e # es) s =
     (case step e s of
        Inl err \<Rightarrow> []
      | Inr (None, s') \<Rightarrow> decisions es s'
      | Inr (Some d, s') \<Rightarrow> d # decisions es s')"

text \<open>
  The times at which \<open>key\<close> was admitted during a run: the values of
  \<open>current\<close> of the calls for \<open>key\<close> that returned \<open>allowed = true\<close>.
\<close>

fun admitted :: "string \<Rightarrow> event list \<Rightarrow> client_store \<Rightarrow> int list" where
  "admitted key [] s = []"
| "admitted key (e # es) s =
     (case step e s of
        Inl err \<Rightarrow> []
      | Inr (d, s') \<Rightarrow>
          (case (e, d) of
             (Evaluate key' current t, Some dec) \<Rightarrow>
               if key' = key \<and> allowed dec then [current] else []
           | _ \<Rightarrow> []) @ admitted key es s')"

text \<open>
  The clock values of a run that concern one client, in the order in which they are
  read: both reads of its own \<^verbatim>\<open>checkRateLimit\<close> calls, and of a sweep the read before
  the loop and the read of the pruning when the loop visits the client. \<open>read_gap\<close>
  is the time by which the clock advances between the two reads of a call.
\<close>

fun client_reads :: "string \<Rightarrow> event \<Rightarrow> int list" where
  "client_reads key (Evaluate key' current t) = (if key' = key then [current, t] else [])"
| "client_reads key (Sweep now_ts pt) = [now_ts, pt key]"
| "client_reads key (Unban key') = []"
| "client_reads key (Reset key') = []"
| "client_reads key ResetAll = []"

fun read_gap :: "event \<Rightarrow> int" where
  "read_gap (Evaluate key current t) = t - current"
| "read_gap (Sweep now_ts pt) = 0"
| "read_gap (Unban key) = 0"
| "read_gap (Reset key) = 0"
| "read_gap ResetAll = 0"

text \<open>The events of ordinary traffic: requests and sweeps, no administrative call.\<close>

fun is_traffic :: "event \<Rightarrow> bool" where
  "is_traffic (Evaluate key current t) = True"
| "is_traffic (Sweep now_ts pt) = True"
| "is_traffic (Unban key) = False"
| "is_traffic (Reset key) = False"
| "is_traffic ResetAll = False"

section \<open>Notions of the specification\<close>

text \<open>
  The sweep as the specification words it, for one time \<open>now\<close>. Pruning removes
  every timestamp \<open>t\<close> with \<open>t \<le> now - WINDOW\<close> and keeps the others in order. A
  record is idle when it has no timestamp, no violation and no ban. The sweep evicts a
  record that is banned with \<open>now \<ge> bannedUntil\<close>, and otherwise a record that is idle
  once pruned; it keeps every other record, pruned, and returns the number of evicted
  records.
\<close>

definition spec_prune :: "int \<Rightarrow> client_record \<Rightarrow> client_record" where
  "spec_prune now r = r \<lparr> requests := filter (\<lambda>t. \<not> t \<le> now - WINDOW_MS) (requests r) \<rparr>"

definition idle :: "client_record \<Rightarrow> bool" where
  "idle r \<longleftrightarrow> requests r = [] \<and> violations r = 0 \<and> \<not> banned r"

definition spec_evicts :: "int \<Rightarrow> client_record \<Rightarrow> bool" where
  "spec_evicts now r \<longleftrightarrow> (banned r \<and> now \<ge> bannedUntil r) \<or> idle (spec_prune now r)"

definition spec_sweep :: "int \<Rightarrow> client_store \<Rightarrow> nat \<times> client_store" where
  "spec_sweep now s =
     (length (filter (\<lambda>(k, r). spec_evicts now r) (own s)),
      s \<lparr> own := map (\<lambda>(k, r). (k, spec_prune now r))
                    (filter (\<lambda>(k, r). \<not> spec_evicts now r) (own s)) \<rparr>)"

text \<open>
  The same test with the two clock values that the loop uses for one record: the ban
  is compared with \<open>now_ts\<close>, the pruning is relative to \<open>t\<close>.
\<close>

definition evicts_at :: "int \<Rightarrow> int \<Rightarrow> client_record \<Rightarrow> bool" where
  "evicts_at now_ts t r \<longleftrightarrow> (banned r \<and> bannedUntil r \<le> now_ts) \<or> idle (spec_prune t r)"

text \<open>
  A record is within the threshold when it is banned or has fewer than
  \<open>BAN_THRESHOLD\<close> violations; a store is, when all its records are, the one
  that may sit in the prototype slot included.
\<close>

definition within_threshold :: "client_record \<Rightarrow> bool" where
  "within_threshold r \<longleftrightarrow> banned r \<or> violations r < BAN_THRESHOLD"

definition store_within_threshold :: "client_store \<Rightarrow> bool" where
  "store_within_threshold s \<longleftrightarrow>
     list_all (\<lambda>(k, r). within_threshold r) (own s)
     \<and> (case proto s of None \<Rightarrow> True | Some p \<Rightarrow> within_threshold p)"

text \<open>
  A list of admission times respects the quota for windows shortened by \<open>d\<close> when
  every window \<open>(T - (WINDOW - d), T]\<close> holds at most \<open>MAX_REQUESTS\<close> of them.
\<close>

definition admits_ok :: "int \<Rightarrow> int list \<Rightarrow> bool" where
  "admits_ok d A \<longleftrightarrow>
     (\<forall>T. length (filter (\<lambda>a. T - (WINDOW_MS - d) < a \<and> a \<le> T) A) \<le> MAX_REQUESTS)"

section \<open>The view of one client\<close>

text \<open>
  The record that \<open>limit_window\<close> writes back, and the invariant that ties the
  admission times \<open>A\<close> of a client to its record at time \<open>lo\<close>: a missing record
  means that every admission is at least a window old, a banned record that every
  admission is at least a window older than the end of the ban, and otherwise the
  record still holds at least as many timestamps above any cutoff \<open>c \<ge> lo - WINDOW\<close>
  as there are admissions above \<open>c\<close>.
\<close>

definition next_record :: "int \<Rightarrow> int \<Rightarrow> client_record \<Rightarrow> client_record" where
  "next_record current t r =
     (let p = pruneOldRequests t r in
      if MAX_REQUESTS \<le> length (requests p) then
        (if BAN_THRESHOLD \<le> violations p + 1
         then p \<lparr> violations := violations p + 1, banned := True,
                  bannedUntil := current + BAN_DURATION_MS \<rparr>
         else p \<lparr> violations := violations p + 1 \<rparr>)
      else p \<lparr> requests := requests p @ [current] \<rparr>)"

definition recent :: "int \<Rightarrow> int list \<Rightarrow> nat" where
  "recent c xs = length (filter (\<lambda>x. c < x) xs)"

definition covered :: "int list \<Rightarrow> int \<Rightarrow> client_record option \<Rightarrow> bool" where
  "covered A lo ro \<longleftrightarrow>
     (\<forall>a\<in>set A. a \<le> lo)
     \<and> (case ro of
          None \<Rightarrow> (\<forall>a\<in>set A. a \<le> lo - WINDOW_MS)
        | Some r \<Rightarrow>
            if banned r then (\<forall>a\<in>set A. a \<le> bannedUntil r - WINDOW_MS)
            else (\<forall>c. lo - WINDOW_MS \<le> c \<longrightarrow> recent c A \<le> recent c (requests r)))"

section \<open>Example stores and runs\<close>

definition banned_record :: client_record where
  "banned_record =
     \<lparr> requests = [1700000000000], violations = 3, banned = True,
       bannedUntil = 1700000300000 \<rparr>"

definition banned_store :: client_store where
  "banned_store = \<lparr> own = [(''c1'', banned_record)], proto = None \<rparr>"

definition burst_times :: "int list" where
  "burst_times =
     [1700000000000, 1700000000100, 1700000000200, 1700000000300, 1700000000400,
      1700000000500, 1700000000600, 1700000000700, 1700000000800, 1700000001000]"

definition full_record :: "nat \<Rightarrow> client_record" where
  "full_record v =
     \<lparr> requests = burst_times, violations = v, banned = False, bannedUntil = 0 \<rparr>"

definition full_store :: "nat \<Rightarrow> client_store" where
  "full_store v = \<lparr> own = [(''c1'', full_record v)], proto = None \<rparr>"

definition light_record :: client_record where
  "light_record =
     \<lparr> requests = [1699999940000, 1700000000000, 1700000000500],
       violations = 1, banned = False, bannedUntil = 0 \<rparr>"

definition light_store :: client_store where
  "light_store = \<lparr> own = [(''c1'', light_record)], proto = None \<rparr>"

definition idle_active_store :: client_store where
  "idle_active_store =
     \<lparr> own = [(''10.0.0.1'', initRecord),
              (''10.0.0.2'', \<lparr> requests = [1700000000000], violations = 0,
                               banned = False, bannedUntil = 0 \<rparr>)],
       proto = None \<rparr>"

definition burst_run :: "event list" where
  "burst_run =
     map (\<lambda>t. Evaluate ''c1'' t t) (burst_times @ [1700000002000, 1700000003000])"

text \<open>
  Ten admitted calls, then a call during which the clock advances from
  \<open>1700000059999\<close> to \<open>1700000060000\<close> between the two reads.
\<close>

definition race_run :: "event list" where
  "race_run =
     map (\<lambda>t. Evaluate ''c1'' t t) burst_times
     @ [Evaluate ''c1'' 1700000059999 1700000060000]"

text \<open>
  Two records with the same content, and a sweep during which the clock advances by
  one millisecond between the visits of the two.
\<close>

definition twin_record :: client_record where
  "twin_record =
     \<lparr> requests = [1700000000000], violations = 0, banned = False, bannedUntil = 0 \<rparr>"

definition twin_store :: client_store where
  "twin_store =
     \<lparr> own = [(''10.0.0.1'', twin_record), (''10.0.0.2'', twin_record)], proto = None \<rparr>"

definition twin_reads :: "string \<Rightarrow> int" where
  "twin_reads key = (if key = ''10.0.0.1'' then 1700000059999 else 1700000060000)"

section \<open>Basic facts\<close>

lemma ceil_div_ceiling: "ceil_div x d = \<lceil>real_of_int x / real_of_int d\<rceil>"
proof -
  have "\<lceil>real_of_int x / real_of_int d\<rceil> = - \<lfloor>real_of_int (- x) / real_of_int d\<rfloor>"
    by (simp add: ceiling_def)
  also have "\<lfloor>real_of_int (- x) / real_of_int d\<rfloor> = (- x) div d"
    by (rule floor_divide_of_int_eq)
  finally show ?thesis by (simp add: ceil_div_def)
qed

lemma initRecord_fields [simp]:
  "requests initRecord = []" "violations initRecord = 0"
  "\<not> banned initRecord" "bannedUntil initRecord = 0"
  by (simp_all add: initRecord_def)

lemma prune_loop_filter:
  "prune_loop cutoff xs fresh = fresh @ filter (\<lambda>x. x > cutoff) xs"
  by (induction xs arbitrary: fresh) simp_all

lemma requests_prune:
  "requests (pruneOldRequests t r) = filter (\<lambda>x. x > t - WINDOW_MS) (requests r)"
  by (simp add: pruneOldRequests_def prune_loop_filter)

lemma prune_other_fields [simp]:
  "violations (pruneOldRequests t r) = violations r"
  "banned (pruneOldRequests t r) = banned r"
  "bannedUntil (pruneOldRequests t r) = bannedUntil r"
  by (simp_all add: pruneOldRequests_def)

lemma prune_initRecord [simp]: "pruneOldRequests t initRecord = initRecord"
  by (simp add: pruneOldRequests_def initRecord_def)

lemma get_prop_set_prop_same [simp]: "get_prop (set_prop s k r) k = Rec r"
  by (auto simp: get_prop_def set_prop_def update_conv' inherited_def)

lemma set_prop_twice [simp]: "set_prop (set_prop s k a) k b = set_prop s k b"
  by (auto simp: set_prop_def update_conv')

lemma truthy_proto [simp]: "truthy (get_prop s ''__proto__'')"
  by (simp add: get_prop_def inherited_def split: option.splits)

lemma hd_filter_holds:
  assumes "filter P xs \<noteq> []" shows "P (hd (filter P xs))"
proof -
  have "hd (filter P xs) \<in> set (filter P xs)" using assms by (rule hd_in_set)
  then show ?thesis by simp
qed

lemma oldest_or_pruned:
  assumes "WINDOW_MS \<le> t" and "requests (pruneOldRequests t r) \<noteq> []"
  shows "oldest_or (requests (pruneOldRequests t r)) c = hd (requests (pruneOldRequests t r))"
proof -
  have "hd (requests (pruneOldRequests t r)) > t - WINDOW_MS"
    using assms(2) hd_filter_holds [of "\<lambda>x. x > t - WINDOW_MS" "requests r"]
    by (simp add: requests_prune)
  with assms show ?thesis
    by (cases "requests (pruneOldRequests t r)") (auto simp: oldest_or_def)
qed

section \<open>The branches of \<^verbatim>\<open>checkRateLimit\<close>\<close>

lemma limit_window_init:
  "limit_window k now t s initRecord =
     (\<lparr> allowed = True, status = 200, remaining = int MAX_REQUESTS - 1,
        resetIn = ceil_div WINDOW_MS 1000, res_violations = None, message = Msg_allowed \<rparr>,
      set_prop s k \<lparr> requests = [now], violations = 0, banned = False, bannedUntil = 0 \<rparr>)"
  by (simp add: limit_window_def Let_def) (simp add: initRecord_def MAX_REQUESTS_def)

lemma checkRateLimit_fresh:
  assumes "\<not> truthy (get_prop s k)"
  shows "checkRateLimit k now t s = Inr (limit_window k now t s initRecord)"
  using assms
  by (simp add: checkRateLimit_def Let_def limit_window_def)

lemma checkRateLimit_expired:
  assumes "get_prop s k = Rec r" "banned r" "bannedUntil r \<le> now"
  shows "checkRateLimit k now t s = Inr (limit_window k now t s initRecord)"
  using assms
  by (simp add: checkRateLimit_def Let_def limit_window_def)

lemma checkRateLimit_active:
  assumes "get_prop s k = Rec r" "\<not> banned r"
  shows "checkRateLimit k now t s = Inr (limit_window k now t s r)"
  using assms
  by (simp add: checkRateLimit_def Let_def)

lemma limit_window_allowed:
  assumes "length (requests (pruneOldRequests t r)) < MAX_REQUESTS"
  shows "limit_window k now t s r =
     (let p = pruneOldRequests t r; rs = requests p @ [now] in
        (\<lparr> allowed = True, status = 200,
           remaining = int MAX_REQUESTS - int (length rs),
           resetIn = ceil_div (hd rs + WINDOW_MS - now) 1000,
           res_violations = None, message = Msg_allowed \<rparr>,
         set_prop s k (p \<lparr> requests := rs \<rparr>)))"
  using assms by (simp add: limit_window_def Let_def)

lemma limit_window_denied:
  assumes "MAX_REQUESTS \<le> length (requests (pruneOldRequests t r))"
    and "violations r + 1 < BAN_THRESHOLD"
  shows "\<not> allowed (fst (limit_window k now t s r))"
    and "status (fst (limit_window k now t s r)) = 429"
    and "res_violations (fst (limit_window k now t s r)) = Some (violations r + 1)"
  using assms by (simp_all add: limit_window_def Let_def)

section \<open>Pruning\<close>

text \<open>
  C5. The pruning pass keeps exactly the timestamps that are not at or below
  \<open>now - WINDOW\<close>, in their original order (the result is the filtered list), and
  changes no other field of the record.
\<close>

theorem C5_prune_exact:
  "pruneOldRequests now r =
     r \<lparr> requests := filter (\<lambda>t. \<not> t \<le> now - WINDOW_MS) (requests r) \<rparr>"
  by (simp add: pruneOldRequests_def prune_loop_filter not_le)

section \<open>The ban check\<close>

text \<open>
  C2. For a record whose \<open>banned\<close> flag is set: before \<open>bannedUntil\<close> the call is
  denied with status 403, \<open>remaining = 0\<close> and \<open>resetIn = ceil((bannedUntil - now)/1000)\<close>,
  and the store is left as it was; from \<open>bannedUntil\<close> on (equality included) the record
  is replaced by a fresh one and the call proceeds as on that fresh record: it is
  allowed with \<open>remaining = MAX_REQUESTS - 1\<close>, and the record then holds the single
  timestamp \<open>now\<close>, no violations and no ban. Neither case depends on the clock
  value \<open>t\<close> that the pruning reads.
\<close>

theorem C2_ban_check:
  assumes "get_prop s k = Rec r" and "banned r"
  shows "(now < bannedUntil r \<longrightarrow>
            checkRateLimit k now t s =
              Inr (\<lparr> allowed = False, status = 403, remaining = 0,
                     resetIn = ceil_div (bannedUntil r - now) 1000,
                     res_violations = None, message = Msg_banned \<rparr>, s))
       \<and> (bannedUntil r \<le> now \<longrightarrow>
            checkRateLimit k now t s =
              Inr (\<lparr> allowed = True, status = 200, remaining = int MAX_REQUESTS - 1,
                     resetIn = ceil_div WINDOW_MS 1000,
                     res_violations = None, message = Msg_allowed \<rparr>,
                   set_prop s k
                     \<lparr> requests = [now], violations = 0, banned = False, bannedUntil = 0 \<rparr>)
          \<and> checkRateLimit k now t s = checkRateLimit k now t (set_prop s k initRecord))"
  using assms
  by (simp add: checkRateLimit_def Let_def limit_window_init)

theorem C2_ban_check_witness:
  "checkRateLimit ''c1'' 1700000299999 1700000299999 banned_store
   = Inr (\<lparr> allowed = False, status = 403, remaining = 0, resetIn = 1,
            res_violations = None, message = Msg_banned \<rparr>, banned_store)
   \<and> checkRateLimit ''c1'' 1700000300000 1700000300000 banned_store
   = Inr (\<lparr> allowed = True, status = 200, remaining = 9, resetIn = 60,
            res_violations = None, message = Msg_allowed \<rparr>,
          \<lparr> own = [(''c1'', \<lparr> requests = [1700000300000], violations = 0, banned = False,
                              bannedUntil = 0 \<rparr>)], proto = None \<rparr>)"
  using
    C2_ban_check [of banned_store "''c1''" banned_record 1700000299999 1700000299999]
    C2_ban_check [of banned_store "''c1''" banned_record 1700000300000 1700000300000]
  by (simp add: banned_store_def banned_record_def get_prop_def set_prop_def ceil_div_def
      MAX_REQUESTS_def WINDOW_MS_def)

section \<open>Quota exhausted\<close>

text \<open>
  C3. For a record that is not banned and that still holds at least \<open>MAX_REQUESTS\<close>
  timestamps after pruning (exactly \<open>MAX_REQUESTS\<close> included: the test is \<open>\<ge>\<close>), the
  call increments \<open>violations\<close>. If the incremented count reaches \<open>BAN_THRESHOLD\<close>
  the record becomes banned until \<open>now + BAN_DURATION\<close> and the call is denied with
  status 403, \<open>remaining = 0\<close> and \<open>resetIn = ceil(BAN_DURATION/1000)\<close>; otherwise it
  is denied with status 429, \<open>remaining = 0\<close>, the incremented count and
  \<open>resetIn = ceil((oldest + WINDOW - now)/1000)\<close>, where \<open>oldest\<close> is the first
  remaining timestamp (\<open>now\<close> for an empty sequence). A record that was just
  reinitialised has no timestamp and never reaches this branch. Here \<open>t\<close> is the
  clock value that the pruning reads (\<open>t = now\<close> when the clock stands still during
  the call); it is taken to be at least one window past the epoch, so that no
  remaining timestamp is the falsy number \<open>0\<close>, which
  \<^verbatim>\<open>record.requests[0] || current\<close> would replace by \<open>now\<close>.
\<close>

theorem C3_quota_exhausted:
  assumes "get_prop s k = Rec r" and "\<not> banned r"
    and "MAX_REQUESTS \<le> length (requests (pruneOldRequests t r))"
    and "WINDOW_MS \<le> t"
  shows "checkRateLimit k now t s =
     (let p = pruneOldRequests t r; v = violations r + 1 in
      if BAN_THRESHOLD \<le> v then
        Inr (\<lparr> allowed = False, status = 403, remaining = 0,
               resetIn = ceil_div BAN_DURATION_MS 1000,
               res_violations = None, message = Msg_ban_activated \<rparr>,
             set_prop s k (p \<lparr> violations := v, banned := True,
                               bannedUntil := now + BAN_DURATION_MS \<rparr>))
      else
        Inr (\<lparr> allowed = False, status = 429, remaining = 0,
               resetIn = ceil_div ((if requests p = [] then now else hd (requests p))
                                   + WINDOW_MS - now) 1000,
               res_violations = Some v,
               message = Msg_rate_limited (int BAN_THRESHOLD - int v) \<rparr>,
             set_prop s k (p \<lparr> violations := v \<rparr>)))"
proof -
  let ?p = "pruneOldRequests t r"
  have ne: "requests ?p \<noteq> []" using assms(3) by (auto simp: MAX_REQUESTS_def)
  have old: "oldest_or (requests ?p) now = hd (requests ?p)"
    using assms(4) ne by (rule oldest_or_pruned)
  show ?thesis
    using assms(1,2,3) ne old
    by (simp add: checkRateLimit_def limit_window_def Let_def)
qed

theorem C3_quota_exhausted_witness:
  "checkRateLimit ''c1'' 1700000002000 1700000002000 (full_store 0)
   = Inr (\<lparr> allowed = False, status = 429, remaining = 0, resetIn = 58,
            res_violations = Some 1, message = Msg_rate_limited 2 \<rparr>, full_store 1)
   \<and> checkRateLimit ''c1'' 1700000002000 1700000002000 (full_store 2)
   = Inr (\<lparr> allowed = False, status = 403, remaining = 0, resetIn = 300,
            res_violations = None, message = Msg_ban_activated \<rparr>,
          \<lparr> own = [(''c1'', \<lparr> requests = burst_times, violations = 3, banned = True,
                              bannedUntil = 1700000302000 \<rparr>)], proto = None \<rparr>)"
  using
    C3_quota_exhausted [of "full_store 0" "''c1''" "full_record 0" 1700000002000 1700000002000]
    C3_quota_exhausted [of "full_store 2" "''c1''" "full_record 2" 1700000002000 1700000002000]
  by (simp add: full_store_def full_record_def burst_times_def get_prop_def set_prop_def
      ceil_div_def MAX_REQUESTS_def WINDOW_MS_def BAN_THRESHOLD_def BAN_DURATION_MS_def
      pruneOldRequests_def Let_def)

section \<open>Denied calls\<close>

text \<open>
  C10. A call that returns a denial (banned or rate limited) appends nothing: the key
  had a record before the call, it has one after it, and the timestamps after the call
  are a subsequence of those before it.
\<close>

theorem C10_denied_never_appends:
  assumes "checkRateLimit k now t s = Inr (d, s')" and "\<not> allowed d"
  shows "\<exists>r r'. get_prop s k = Rec r \<and> get_prop s' k = Rec r'
                 \<and> subseq (requests r') (requests r)"
proof (cases "get_prop s k")
  case Undefined
  with assms show ?thesis
    by (auto simp: checkRateLimit_def Let_def limit_window_init)
next
  case (Other b)
  with assms show ?thesis
    by (cases b) (auto simp: checkRateLimit_def Let_def limit_window_init)
next
  case (Rec r)
  show ?thesis
  proof (cases "banned r")
    case True
    with Rec assms show ?thesis
      by (cases "now < bannedUntil r")
         (auto simp: checkRateLimit_def Let_def limit_window_init)
  next
    case False
    have "subseq (requests (pruneOldRequests t r)) (requests r)"
      by (simp add: requests_prune)
    with False Rec assms show ?thesis
      by (auto simp: checkRateLimit_def Let_def limit_window_def split: if_splits)
  qed
qed

theorem C10_denied_never_appends_witness:
  "checkRateLimit ''c1'' 1700000002000 1700000002000 (full_store 0) =
     Inr (\<lparr> allowed = False, status = 429, remaining = 0, resetIn = 58,
            res_violations = Some 1, message = Msg_rate_limited 2 \<rparr>, full_store 1)
   \<and> (\<exists>r r'. get_prop (full_store 0) ''c1'' = Rec r
             \<and> get_prop (full_store 1) ''c1'' = Rec r'
             \<and> subseq (requests r') (requests r))"
proof -
  let ?d = "\<lparr> allowed = False, status = 429, remaining = 0, resetIn = 58,
            res_violations = Some 1, message = Msg_rate_limited 2 \<rparr>"
  have call: "checkRateLimit ''c1'' 1700000002000 1700000002000 (full_store 0) =
      Inr (?d, full_store 1)"
    by (simp add: checkRateLimit_def limit_window_def full_store_def full_record_def
        burst_times_def get_prop_def set_prop_def ceil_div_def MAX_REQUESTS_def
        WINDOW_MS_def BAN_THRESHOLD_def oldest_or_def pruneOldRequests_def Let_def)
  have den: "\<not> allowed ?d" by simp
  from C10_denied_never_appends [OF call den] call show ?thesis by simp
qed

section \<open>Facts about the administrative handlers\<close>

text \<open>
  C8. \<^verbatim>\<open>handleResetAll\<close> always answers: it returns the number of records in the
  store and leaves the empty store, so a second call in a row returns 0.
\<close>

theorem C8_reset_all:
  "handleResetAll s = (length (own s), clientStore_init)
   \<and> fst (handleResetAll (snd (handleResetAll s))) = 0"
  by (simp add: handleResetAll_def object_keys_def clientStore_init_def)

text \<open>
  On keys that have a record, and on keys that read as \<^verbatim>\<open>undefined\<close>, the two
  handlers for one key do what their messages say.
\<close>

lemma handleUnban_record:
  "get_prop s k = Rec r \<Longrightarrow> handleUnban k s = (Ok_200, set_prop s k initRecord)"
  by (simp add: handleUnban_def)

lemma handleReset_record:
  "get_prop s k = Rec r \<Longrightarrow> handleReset k s = (Ok_200, delete_prop s k)"
  by (simp add: handleReset_def)

lemma handlers_undefined:
  "get_prop s k = Undefined \<Longrightarrow>
   handleUnban k s = (NotFound_404, s) \<and> handleReset k s = (NotFound_404, s)"
  by (simp add: handleUnban_def handleReset_def)

lemma unban_then_fresh:
  "get_prop s k = Rec r \<Longrightarrow>
   checkRateLimit k now t (snd (handleUnban k s)) =
     Inr (\<lparr> allowed = True, status = 200, remaining = int MAX_REQUESTS - 1,
            resetIn = ceil_div WINDOW_MS 1000, res_violations = None, message = Msg_allowed \<rparr>,
          set_prop s k \<lparr> requests = [now], violations = 0, banned = False, bannedUntil = 0 \<rparr>)"
  by (simp add: handleUnban_record checkRateLimit_active [of _ _ initRecord] limit_window_init)

text \<open>
  C7. The handlers test \<^verbatim>\<open>!clientStore[clientKey]\<close>, which also finds what the
  store inherits from \<^verbatim>\<open>Object.prototype\<close>. On the empty store the key
  \<^verbatim>\<open>constructor\<close> has no record, yet \<^verbatim>\<open>handleUnban\<close> answers 200 and creates a
  record for it, and \<^verbatim>\<open>handleReset\<close> answers 200 as well.
\<close>

theorem C7_inherited_key_not_404:
  "map_of (own clientStore_init) ''constructor'' = None
   \<and> get_prop clientStore_init ''constructor'' = Other True
   \<and> handleUnban ''constructor'' clientStore_init =
       (Ok_200, \<lparr> own = [(''constructor'', initRecord)], proto = None \<rparr>)
   \<and> handleReset ''constructor'' clientStore_init = (Ok_200, clientStore_init)"
  by (simp add: handleUnban_def handleReset_def clientStore_init_def get_prop_def
      inherited_def object_prototype_names_def set_prop_def delete_prop_def)

section \<open>The ban threshold\<close>

lemma swt_init: "store_within_threshold clientStore_init"
  by (simp add: store_within_threshold_def clientStore_init_def)

lemma within_threshold_init [simp]: "within_threshold initRecord"
  by (simp add: within_threshold_def BAN_THRESHOLD_def)

lemma swt_get:
  assumes "store_within_threshold s" and "get_prop s k = Rec r"
  shows "within_threshold r"
proof (cases "map_of (own s) k")
  case None
  with assms show ?thesis
    by (auto simp: get_prop_def inherited_def store_within_threshold_def
        split: if_splits option.splits)
next
  case (Some r')
  then have "(k, r') \<in> set (own s)" by (rule map_of_SomeD)
  with assms Some show ?thesis
    by (auto simp: get_prop_def store_within_threshold_def list_all_iff)
qed

lemma set_update_subset: "set (AList.update k v al) \<subseteq> insert (k, v) (set al)"
  by (induction al) auto

lemma swt_set:
  assumes "store_within_threshold s" and "within_threshold r"
  shows "store_within_threshold (set_prop s k r)"
  using assms set_update_subset [of k r "own s"]
  by (auto simp: store_within_threshold_def set_prop_def list_all_iff)

lemma swt_delete:
  assumes "store_within_threshold s"
  shows "store_within_threshold (delete_prop s k)"
  using assms
  by (auto simp: store_within_threshold_def delete_prop_def list_all_iff AList.delete_eq)

lemma within_threshold_prune [simp]:
  "within_threshold (pruneOldRequests t r) = within_threshold r"
  by (simp add: within_threshold_def)

lemma swt_limit_window:
  assumes "store_within_threshold s" and "within_threshold r" and "\<not> banned r"
  shows "store_within_threshold (snd (limit_window k now t s r))"
proof -
  from assms(2,3) have v: "violations r < BAN_THRESHOLD" by (simp add: within_threshold_def)
  show ?thesis
    unfolding limit_window_def Let_def
    using assms(1) v
    by (auto intro!: swt_set simp: within_threshold_def)
qed

lemma swt_checkRateLimit:
  assumes "store_within_threshold s" and "checkRateLimit k now t s = Inr (d, s')"
  shows "store_within_threshold s'"
proof (cases "truthy (get_prop s k)")
  case False
  then have "checkRateLimit k now t s = Inr (limit_window k now t s initRecord)"
    by (rule checkRateLimit_fresh)
  with assms swt_limit_window [OF assms(1), of initRecord k now t] show ?thesis
    by auto
next
  case True
  show ?thesis
  proof (cases "get_prop s k")
    case Undefined
    with True show ?thesis by simp
  next
    case (Other b)
    with assms True show ?thesis by (simp add: checkRateLimit_def)
  next
    case (Rec r)
    have ok: "within_threshold r" using assms(1) Rec by (rule swt_get)
    show ?thesis
    proof (cases "banned r")
      case False
      with Rec have "checkRateLimit k now t s = Inr (limit_window k now t s r)"
        by (simp add: checkRateLimit_active)
      with assms swt_limit_window [OF assms(1) ok False, of k now t] show ?thesis
        by auto
    next
      case True
      show ?thesis
      proof (cases "now < bannedUntil r")
        case True
        with \<open>banned r\<close> Rec assms show ?thesis
          by (simp add: checkRateLimit_def)
      next
        case False
        with \<open>banned r\<close> Rec
        have "checkRateLimit k now t s = Inr (limit_window k now t s initRecord)"
          by (simp add: checkRateLimit_expired)
        with assms swt_limit_window [OF assms(1), of initRecord k now t] show ?thesis
          by auto
      qed
    qed
  qed
qed

lemma swt_cleanup_loop:
  assumes "store_within_threshold s" and "cleanup_loop now pt keys s n = Inr (m, s')"
  shows "store_within_threshold s'"
  using assms
proof (induction keys arbitrary: s n)
  case Nil
  then show ?case by simp
next
  case (Cons key keys)
  show ?case
  proof (cases "get_prop s key")
    case Undefined
    with Cons.prems show ?thesis by simp
  next
    case (Other b)
    with Cons.prems show ?thesis by simp
  next
    case (Rec r)
    have ok: "within_threshold r" using Cons.prems(1) Rec by (rule swt_get)
    have s1: "store_within_threshold (delete_prop s key)"
      using Cons.prems(1) by (rule swt_delete)
    have s2: "store_within_threshold (set_prop s key (pruneOldRequests (pt key) r))"
      by (simp add: swt_set Cons.prems(1) ok)
    have s3: "store_within_threshold
        (delete_prop (set_prop s key (pruneOldRequests (pt key) r)) key)"
      using s2 by (rule swt_delete)
    from Cons.prems(2) Rec Cons.IH [OF s1] Cons.IH [OF s2] Cons.IH [OF s3]
    show ?thesis
      by (auto simp: Let_def split: if_splits)
  qed
qed

lemma swt_step:
  assumes "store_within_threshold s" and "step e s = Inr (d, s')"
  shows "store_within_threshold s'"
proof (cases e)
  case (Evaluate k c t)
  with assms show ?thesis
    by (auto split: sum.splits dest: swt_checkRateLimit)
next
  case (Sweep now pt)
  with assms show ?thesis
    by (auto simp: cleanup_def split: sum.splits dest: swt_cleanup_loop)
next
  case (Unban k)
  with assms show ?thesis
    by (auto simp: handleUnban_def swt_set)
next
  case (Reset k)
  with assms show ?thesis
    by (auto simp: handleReset_def swt_delete)
next
  case ResetAll
  with assms show ?thesis
    by (auto simp: handleResetAll_def swt_init)
qed

lemma swt_run:
  assumes "store_within_threshold s" and "run es s = Inr s'"
  shows "store_within_threshold s'"
  using assms
proof (induction es arbitrary: s)
  case Nil
  then show ?case by simp
next
  case (Cons e es)
  then show ?case
    by (auto split: sum.splits dest: swt_step)
qed

text \<open>
  C9. In every store that a run of \<^verbatim>\<open>checkRateLimit\<close> calls, sweeps, unbans,
  resets and reset-alls reaches from the empty store, with any clock readings, a
  record that is not banned has fewer than \<open>BAN_THRESHOLD\<close> violations: the counter
  reaches the threshold only in the step that sets \<open>banned\<close>.
\<close>

theorem C9_unbanned_below_threshold:
  assumes "run es clientStore_init = Inr s" and "get_prop s k = Rec r" and "\<not> banned r"
  shows "violations r < BAN_THRESHOLD"
proof -
  have "store_within_threshold s"
    using swt_init assms(1) by (rule swt_run)
  then have "within_threshold r" using assms(2) by (rule swt_get)
  with assms(3) show ?thesis by (simp add: within_threshold_def)
qed

lemma burst_run_result:
  "run burst_run clientStore_init = Inr (full_store 2)"
  by (simp add: burst_run_def burst_times_def clientStore_init_def full_store_def
      full_record_def checkRateLimit_def limit_window_def get_prop_def set_prop_def
      inherited_def object_prototype_names_def initRecord_def pruneOldRequests_def
      MAX_REQUESTS_def WINDOW_MS_def BAN_THRESHOLD_def Let_def)

theorem C9_unbanned_below_threshold_witness:
  "run burst_run clientStore_init = Inr (full_store 2)
   \<and> get_prop (full_store 2) ''c1'' = Rec (full_record 2)
   \<and> \<not> banned (full_record 2)
   \<and> violations (full_record 2) < BAN_THRESHOLD"
proof -
  have look: "get_prop (full_store 2) ''c1'' = Rec (full_record 2)"
    by (simp add: full_store_def get_prop_def)
  have free: "\<not> banned (full_record 2)"
    by (simp add: full_record_def)
  from C9_unbanned_below_threshold [OF burst_run_result look free] burst_run_result look free
  show ?thesis by simp
qed

section \<open>Quota available\<close>

lemma allowed_branch:
  assumes "(get_prop s k = Rec r \<and> \<not> banned r \<and> r1 = r)
         \<or> (get_prop s k = Rec r \<and> banned r \<and> bannedUntil r \<le> now \<and> r1 = initRecord)
         \<or> (\<not> truthy (get_prop s k) \<and> r1 = initRecord)"
    and "length (requests (pruneOldRequests t r1)) < MAX_REQUESTS"
  shows "checkRateLimit k now t s =
     (let p = pruneOldRequests t r1; rs = requests p @ [now] in
        Inr (\<lparr> allowed = True, status = 200,
               remaining = int MAX_REQUESTS - int (length rs),
               resetIn = ceil_div (hd rs + WINDOW_MS - now) 1000,
               res_violations = None, message = Msg_allowed \<rparr>,
             set_prop s k (p \<lparr> requests := rs \<rparr>)))"
  using assms(1)
proof (elim disjE conjE)
  assume "get_prop s k = Rec r" "\<not> banned r" "r1 = r"
  then show ?thesis
    using limit_window_allowed [OF assms(2), of k now s]
    by (simp add: checkRateLimit_active Let_def)
next
  assume "get_prop s k = Rec r" "banned r" "bannedUntil r \<le> now" "r1 = initRecord"
  then show ?thesis
    using limit_window_allowed [OF assms(2), of k now s]
    by (simp add: checkRateLimit_expired Let_def)
next
  assume "\<not> truthy (get_prop s k)" "r1 = initRecord"
  then show ?thesis
    using limit_window_allowed [OF assms(2), of k now s]
    by (simp add: checkRateLimit_fresh Let_def)
qed

lemma allowed_branch_example:
  "checkRateLimit ''c1'' 1700000001000 1700000001000 light_store =
     Inr (\<lparr> allowed = True, status = 200, remaining = 7, resetIn = 59,
            res_violations = None, message = Msg_allowed \<rparr>,
          \<lparr> own = [(''c1'', \<lparr> requests = [1700000000000, 1700000000500, 1700000001000],
                              violations = 1, banned = False, bannedUntil = 0 \<rparr>)],
            proto = None \<rparr>)"
  using allowed_branch [of light_store "''c1''" light_record light_record 1700000001000
      1700000001000]
  by (simp add: light_store_def light_record_def get_prop_def set_prop_def ceil_div_def
      MAX_REQUESTS_def WINDOW_MS_def pruneOldRequests_def Let_def)

text \<open>
  A burst of calls for one client on a record with room; \<open>cs\<close> lists the two clock
  values of each call, none of which leaves the window that starts at \<open>t0\<close>.
\<close>

lemma decisions_burst:
  assumes "get_prop s k = Rec r" and "\<not> banned r"
    and "\<forall>x\<in>set (requests r). t0 \<le> x"
    and "\<forall>(c, t)\<in>set cs. t0 \<le> c \<and> t < t0 + WINDOW_MS"
    and "length (requests r) + length cs \<le> MAX_REQUESTS"
  shows "\<exists>ds s'. decisions (map (\<lambda>(c, t). Evaluate k c t) cs @ es) s = ds @ decisions es s'
           \<and> map allowed ds = replicate (length cs) True
           \<and> map remaining ds =
               map (\<lambda>i. int MAX_REQUESTS - 1 - int (length (requests r)) - int i) [0..<length cs]
           \<and> get_prop s' k = Rec (r \<lparr> requests := requests r @ map fst cs \<rparr>)"
  using assms
proof (induction cs arbitrary: s r)
  case Nil
  then show ?case by (intro exI [of _ "[]"] exI [of _ s]) simp
next
  case (Cons ct cs)
  obtain c t where ct: "ct = (c, t)" by (cases ct)
  let ?r' = "r \<lparr> requests := requests r @ [c] \<rparr>"
  let ?d = "\<lparr> allowed = True, status = 200,
           remaining = int MAX_REQUESTS - int (length (requests r @ [c])),
           resetIn = ceil_div (hd (requests r @ [c]) + WINDOW_MS - c) 1000,
           res_violations = None, message = Msg_allowed \<rparr>"
  have keep: "filter (\<lambda>x. x > t - WINDOW_MS) (requests r) = requests r"
    using Cons.prems(3,4) ct by (auto simp: filter_id_conv)
  then have pr: "pruneOldRequests t r = r"
    by (simp add: pruneOldRequests_def prune_loop_filter)
  have len: "length (requests (pruneOldRequests t r)) < MAX_REQUESTS"
    using Cons.prems(5) pr by simp
  have step1: "checkRateLimit k c t s = Inr (?d, set_prop s k ?r')"
    using Cons.prems(1,2) limit_window_allowed [OF len, of k c s] pr
    by (simp add: checkRateLimit_active Let_def)
  have "\<exists>ds s'. decisions (map (\<lambda>(c, t). Evaluate k c t) cs @ es) (set_prop s k ?r')
             = ds @ decisions es s'
           \<and> map allowed ds = replicate (length cs) True
           \<and> map remaining ds =
               map (\<lambda>i. int MAX_REQUESTS - 1 - int (length (requests ?r')) - int i) [0..<length cs]
           \<and> get_prop s' k = Rec (?r' \<lparr> requests := requests ?r' @ map fst cs \<rparr>)"
    using Cons.prems ct by (intro Cons.IH) auto
  then obtain ds s' where
    ds: "decisions (map (\<lambda>(c, t). Evaluate k c t) cs @ es) (set_prop s k ?r')
           = ds @ decisions es s'"
      "map allowed ds = replicate (length cs) True"
      "map remaining ds =
         map (\<lambda>i. int MAX_REQUESTS - 1 - int (length (requests ?r')) - int i) [0..<length cs]"
      "get_prop s' k = Rec (?r' \<lparr> requests := requests ?r' @ map fst cs \<rparr>)"
    by blast
  have idx: "map (\<lambda>i. int MAX_REQUESTS - 1 - int (length (requests r)) - int i)
               [0..<length (ct # cs)]
           = (int MAX_REQUESTS - 1 - int (length (requests r)))
             # map (\<lambda>i. int MAX_REQUESTS - 1 - int (length (requests ?r')) - int i)
                 [0..<length cs]"
    by (simp add: upt_conv_Cons map_Suc_upt [symmetric] del: upt_Suc)
  have "decisions (map (\<lambda>(c, t). Evaluate k c t) (ct # cs) @ es) s
          = (?d # ds) @ decisions es s'"
    using step1 ds(1) ct by simp
  moreover have "map allowed (?d # ds) = replicate (length (ct # cs)) True"
    using ds(2) by simp
  moreover have "map remaining (?d # ds) =
      map (\<lambda>i. int MAX_REQUESTS - 1 - int (length (requests r)) - int i) [0..<length (ct # cs)]"
    unfolding idx using ds(3) by simp
  moreover have "get_prop s' k = Rec (r \<lparr> requests := requests r @ map fst (ct # cs) \<rparr>)"
    using ds(4) ct by simp
  ultimately show ?case by blast
qed

text \<open>
  The scenario of ten calls within one second and an eleventh one to two seconds
  after the first, for a key under which the store reads a falsy value (no record
  and no inherited property), whatever the clock does between the two reads of a call
  within these bounds.
\<close>

lemma scenario_burst:
  assumes fresh: "\<not> truthy (get_prop s k)"
    and len: "length cs = 10"
    and cs: "\<forall>(c, t)\<in>set cs. t0 \<le> c \<and> c \<le> t \<and> t \<le> t0 + 1000"
    and c11: "t0 + 1000 \<le> c11" "c11 \<le> t11" "t11 \<le> t0 + 2000"
  shows "\<exists>ds d11.
           decisions (map (\<lambda>(c, t). Evaluate k c t) (cs @ [(c11, t11)])) s = ds @ [d11]
           \<and> map allowed ds = replicate 10 True
           \<and> map remaining ds = [9, 8, 7, 6, 5, 4, 3, 2, 1, 0]
           \<and> \<not> allowed d11 \<and> status d11 = 429 \<and> res_violations d11 = Some 1"
proof -
  from len obtain ct cs' where split: "cs = ct # cs'" and len': "length cs' = 9"
    by (cases cs) auto
  obtain c t where ct: "ct = (c, t)" by (cases ct)
  let ?r1 = "\<lparr> requests = [c], violations = 0, banned = False, bannedUntil = 0 \<rparr>"
  let ?d1 = "\<lparr> allowed = True, status = 200, remaining = int MAX_REQUESTS - 1,
        resetIn = ceil_div WINDOW_MS 1000, res_violations = None, message = Msg_allowed \<rparr>"
  let ?s1 = "set_prop s k ?r1"
  let ?last = "Evaluate k c11 t11"
  have first: "checkRateLimit k c t s = Inr (?d1, ?s1)"
    using fresh by (simp add: checkRateLimit_fresh limit_window_init)
  have "\<exists>ds s'. decisions (map (\<lambda>(c, t). Evaluate k c t) cs' @ [?last]) ?s1
             = ds @ decisions [?last] s'
           \<and> map allowed ds = replicate (length cs') True
           \<and> map remaining ds =
               map (\<lambda>i. int MAX_REQUESTS - 1 - int (length (requests ?r1)) - int i)
                 [0..<length cs']
           \<and> get_prop s' k = Rec (?r1 \<lparr> requests := requests ?r1 @ map fst cs' \<rparr>)"
  proof (rule decisions_burst [where ?t0.0 = t0])
    show "get_prop ?s1 k = Rec ?r1" by simp
    show "\<not> banned ?r1" by simp
    show "\<forall>x\<in>set (requests ?r1). t0 \<le> x" using cs split ct by simp
    show "\<forall>(c, t)\<in>set cs'. t0 \<le> c \<and> t < t0 + WINDOW_MS"
      using cs split by (auto simp: WINDOW_MS_def)
    show "length (requests ?r1) + length cs' \<le> MAX_REQUESTS"
      using len' by (simp add: MAX_REQUESTS_def)
  qed
  then obtain ds s' where
    ds: "decisions (map (\<lambda>(c, t). Evaluate k c t) cs' @ [?last]) ?s1
           = ds @ decisions [?last] s'"
      "map allowed ds = replicate (length cs') True"
      "map remaining ds =
         map (\<lambda>i. int MAX_REQUESTS - 1 - int (length (requests ?r1)) - int i) [0..<length cs']"
      "get_prop s' k = Rec (?r1 \<lparr> requests := requests ?r1 @ map fst cs' \<rparr>)"
    by blast
  let ?r10 = "\<lparr> requests = map fst cs, violations = 0, banned = False, bannedUntil = 0 \<rparr>"
  have r10: "get_prop s' k = Rec ?r10" using ds(4) split ct by simp
  have "filter (\<lambda>x. x > t11 - WINDOW_MS) (map fst cs) = map fst cs"
    using cs c11 by (auto simp: filter_id_conv WINDOW_MS_def)
  then have full: "MAX_REQUESTS \<le> length (requests (pruneOldRequests t11 ?r10))"
    using len by (simp add: requests_prune MAX_REQUESTS_def)
  have low: "violations ?r10 + 1 < BAN_THRESHOLD" by (simp add: BAN_THRESHOLD_def)
  let ?d11 = "fst (limit_window k c11 t11 s' ?r10)"
  have last: "decisions [?last] s' = [?d11]"
    using r10 by (simp add: checkRateLimit_active split: prod.splits)
  have upt9: "[0..<9] = [0, 1, 2, 3, 4, 5, 6, 7, 8 :: nat]" by code_simp
  have rem: "map remaining (?d1 # ds) = [9, 8, 7, 6, 5, 4, 3, 2, 1, 0]"
    using ds(3) len' by (simp add: MAX_REQUESTS_def upt9)
  have all: "map allowed (?d1 # ds) = replicate 10 True"
    using ds(2) len' by (simp add: numeral_eq_Suc)
  have "decisions (map (\<lambda>(c, t). Evaluate k c t) (cs @ [(c11, t11)])) s
          = (?d1 # ds) @ [?d11]"
    using first ds(1) last split ct by simp
  with rem all limit_window_denied [OF full low, of k c11 s'] show ?thesis
    by (intro exI [of _ "?d1 # ds"] exI [of _ ?d11]) simp
qed

text \<open>
  C4. A client that has no record is not always admitted. On the empty store the
  key \<^verbatim>\<open>constructor\<close> has no record, but \<^verbatim>\<open>clientStore["constructor"]\<close> reads the
  inherited function \<^verbatim>\<open>Object\<close>, which \<^verbatim>\<open>checkRateLimit\<close> takes for the record:
  the call throws a \<^verbatim>\<open>TypeError\<close> in \<^verbatim>\<open>pruneOldRequests\<close> for every clock
  value, and of the eleven calls of the scenario none returns a decision.
\<close>

theorem C4_inherited_key_throws:
  "map_of (own clientStore_init) ''constructor'' = None
   \<and> get_prop clientStore_init ''constructor'' = Other True
   \<and> checkRateLimit ''constructor'' now t clientStore_init = Inl TypeError
   \<and> decisions (map (\<lambda>x. Evaluate ''constructor'' x x) (burst_times @ [1700000002000]))
        clientStore_init = []"
  by (simp add: checkRateLimit_def clientStore_init_def get_prop_def inherited_def
      object_prototype_names_def burst_times_def)

section \<open>The sweep\<close>

lemma prune_is_spec_prune: "pruneOldRequests t r = spec_prune t r"
  by (simp add: pruneOldRequests_def spec_prune_def prune_loop_filter not_le)

lemma spec_evicts_at: "spec_evicts now r = evicts_at now now r"
  by (auto simp: spec_evicts_def evicts_at_def)

lemma update_middle:
  "k \<notin> fst ` set xs \<Longrightarrow> AList.update k v (xs @ (k, r) # ys) = xs @ (k, v) # ys"
  by (induction xs) auto

lemma delete_middle:
  "k \<notin> fst ` set xs \<Longrightarrow> k \<notin> fst ` set ys \<Longrightarrow>
   AList.delete k (xs @ (k, r) # ys) = xs @ ys"
  by (induction xs) (auto simp: delete_id)

lemma map_of_middle:
  "k \<notin> fst ` set xs \<Longrightarrow> map_of (xs @ (k, r) # ys) k = Some r"
  by (induction xs) auto

text \<open>
  The loop over the own keys, started in the middle: the entries \<open>done\<close> were visited
  and kept, the entries \<open>al\<close> are still to come. Every record is judged with the
  clock values read for it.
\<close>

lemma cleanup_loop_own:
  assumes "distinct (map fst al)" and "own s = done @ al"
    and "fst ` set done \<inter> fst ` set al = {}"
  shows "cleanup_loop now pt (map fst al) s n =
     Inr (n + length (filter (\<lambda>(k, r). evicts_at now (pt k) r) al),
          s \<lparr> own := done @ map (\<lambda>(k, r). (k, spec_prune (pt k) r))
                                (filter (\<lambda>(k, r). \<not> evicts_at now (pt k) r) al) \<rparr>)"
  using assms
proof (induction al arbitrary: s n "done")
  case Nil
  then show ?case by simp
next
  case (Cons kr al)
  obtain k r where kr: "kr = (k, r)" by (cases kr)
  from Cons.prems kr have fresh: "k \<notin> fst ` set done" "k \<notin> fst ` set al"
    and dist: "distinct (map fst al)" and owns: "own s = done @ (k, r) # al"
    and disj: "fst ` set done \<inter> fst ` set al = {}"
    by auto
  have mo: "map_of (own s) k = Some r"
    unfolding owns using fresh(1) by (rule map_of_middle)
  then have look: "get_prop s k = Rec r"
    by (simp add: get_prop_def)
  let ?p = "spec_prune (pt k) r"
  have p: "pruneOldRequests (pt k) r = ?p" by (rule prune_is_spec_prune)
  have pf: "violations ?p = violations r" "banned ?p = banned r"
    by (simp_all add: spec_prune_def)
  have del: "delete_prop s k = s \<lparr> own := done @ al \<rparr>"
    using fresh by (simp add: delete_prop_def owns delete_middle)
  have upd: "set_prop s k ?p = s \<lparr> own := done @ (k, ?p) # al \<rparr>"
    using fresh(1) mo by (simp add: set_prop_def) (simp add: owns update_middle)
  have del2: "delete_prop (set_prop s k ?p) k = s \<lparr> own := done @ al \<rparr>"
    using fresh by (simp add: upd) (simp add: delete_prop_def delete_middle)
  show ?case
  proof (cases "evicts_at now (pt k) r")
    case True
    have "cleanup_loop now pt (map fst (kr # al)) s n =
          cleanup_loop now pt (map fst al) (s \<lparr> own := done @ al \<rparr>) (n + 1)"
      using True look del del2 pf
      by (auto simp: kr p evicts_at_def idle_def Let_def)
    also have "\<dots> = Inr (n + 1 + length (filter (\<lambda>(k, r). evicts_at now (pt k) r) al),
          (s \<lparr> own := done @ al \<rparr>)
            \<lparr> own := done @ map (\<lambda>(k, r). (k, spec_prune (pt k) r))
                                (filter (\<lambda>(k, r). \<not> evicts_at now (pt k) r) al) \<rparr>)"
      using dist disj by (intro Cons.IH) auto
    finally show ?thesis using True by (simp add: kr)
  next
    case False
    have "cleanup_loop now pt (map fst (kr # al)) s n =
          cleanup_loop now pt (map fst al) (s \<lparr> own := (done @ [(k, ?p)]) @ al \<rparr>) n"
      using False look upd pf
      by (auto simp: kr p evicts_at_def idle_def Let_def)
    also have "\<dots> = Inr (n + length (filter (\<lambda>(k, r). evicts_at now (pt k) r) al),
          (s \<lparr> own := (done @ [(k, ?p)]) @ al \<rparr>)
            \<lparr> own := (done @ [(k, ?p)]) @ map (\<lambda>(k, r). (k, spec_prune (pt k) r))
                                (filter (\<lambda>(k, r). \<not> evicts_at now (pt k) r) al) \<rparr>)"
      using dist disj fresh by (intro Cons.IH) auto
    finally show ?thesis using False by (simp add: kr)
  qed
qed

lemma cleanup_own:
  assumes "distinct (map fst (own s))" and "proto s = None"
  shows "cleanup now pt s =
     Inr (length (filter (\<lambda>(k, r). evicts_at now (pt k) r) (own s)),
          s \<lparr> own := map (\<lambda>(k, r). (k, spec_prune (pt k) r))
                        (filter (\<lambda>(k, r). \<not> evicts_at now (pt k) r) (own s)) \<rparr>)"
  using cleanup_loop_own [of "own s" s "[]" now pt 0] assms
  by (simp add: cleanup_def for_in_keys_def object_keys_def)

text \<open>
  When all clock reads of a pass return the same value \<open>now\<close>, and the store has
  distinct keys and its original prototype, the pass is the sweep of the specification.
\<close>

lemma cleanup_still_clock:
  assumes "distinct (map fst (own s))" and "proto s = None"
  shows "cleanup now (\<lambda>_. now) s = Inr (spec_sweep now s)"
  using cleanup_own [OF assms, of now "\<lambda>_. now"]
  by (simp add: spec_sweep_def spec_evicts_at)

lemma cleanup_idle_active:
  "cleanup 1700000001000 (\<lambda>_. 1700000001000) idle_active_store =
     Inr (1, \<lparr> own = [(''10.0.0.2'', \<lparr> requests = [1700000000000], violations = 0,
                                      banned = False, bannedUntil = 0 \<rparr>)],
              proto = None \<rparr>)"
  using cleanup_still_clock [of idle_active_store 1700000001000]
  by (simp add: idle_active_store_def spec_sweep_def spec_evicts_def idle_def initRecord_def
      spec_prune_def WINDOW_MS_def)

text \<open>
  C6. A pass does not always do what one sweep at one time \<open>now\<close> does. After
  \<^verbatim>\<open>POST /admin/unban/__proto__\<close> the store object has a record as its prototype; the
  loop then visits the inherited property \<^verbatim>\<open>requests\<close> and throws a
  \<^verbatim>\<open>TypeError\<close> instead of returning a count. And \<^verbatim>\<open>pruneOldRequests\<close> reads the
  clock anew for every record: in a pass over two records with the same content, during
  which the clock advances by one millisecond, the first is kept and the second
  evicted, which the sweep of the specification does for no \<open>now\<close>.
\<close>

theorem C6_sweep_diverges:
  "snd (handleUnban ''__proto__'' clientStore_init) = \<lparr> own = [], proto = Some initRecord \<rparr>
   \<and> cleanup now_ts pt \<lparr> own = [], proto = Some initRecord \<rparr> = Inl TypeError
   \<and> cleanup 1700000059999 twin_reads twin_store =
       Inr (1, \<lparr> own = [(''10.0.0.1'', twin_record)], proto = None \<rparr>)
   \<and> (\<forall>now. spec_sweep now twin_store \<noteq>
               (1, \<lparr> own = [(''10.0.0.1'', twin_record)], proto = None \<rparr>))"
proof (intro conjI allI)
  show "snd (handleUnban ''__proto__'' clientStore_init) = \<lparr> own = [], proto = Some initRecord \<rparr>"
    by (simp add: handleUnban_def set_prop_def clientStore_init_def)
  show "cleanup now_ts pt \<lparr> own = [], proto = Some initRecord \<rparr> = Inl TypeError"
    by (simp add: cleanup_def for_in_keys_def object_keys_def record_field_names_def
        get_prop_def inherited_def)
  show "cleanup 1700000059999 twin_reads twin_store =
       Inr (1, \<lparr> own = [(''10.0.0.1'', twin_record)], proto = None \<rparr>)"
    by (simp add: cleanup_def for_in_keys_def object_keys_def twin_store_def twin_record_def
        twin_reads_def get_prop_def set_prop_def delete_prop_def pruneOldRequests_def
        WINDOW_MS_def Let_def)
  show "spec_sweep now twin_store \<noteq>
          (1, \<lparr> own = [(''10.0.0.1'', twin_record)], proto = None \<rparr>)" for now
    by (simp add: spec_sweep_def spec_evicts_def spec_prune_def idle_def twin_store_def
        twin_record_def)
qed

section \<open>The sliding window\<close>

lemma limit_window_next:
  "snd (limit_window k c t s r) = set_prop s k (next_record c t r)"
  "allowed (fst (limit_window k c t s r)) \<longleftrightarrow>
     length (requests (pruneOldRequests t r)) < MAX_REQUESTS"
  by (auto simp: limit_window_def next_record_def Let_def)

lemma window_pos: "0 \<le> WINDOW_MS" and ban_longer: "WINDOW_MS \<le> BAN_DURATION_MS"
  by (simp_all add: WINDOW_MS_def BAN_DURATION_MS_def)

lemma max_pos: "0 < MAX_REQUESTS"
  by (simp add: MAX_REQUESTS_def)

lemma recent_append [simp]: "recent c (xs @ ys) = recent c xs + recent c ys"
  by (simp add: recent_def)

lemma recent_zero: "(\<forall>a\<in>set A. a \<le> c) \<Longrightarrow> recent c A = 0"
  by (auto simp: recent_def filter_empty_conv)

lemma recent_zeroD: "recent c A = 0 \<Longrightarrow> a \<in> set A \<Longrightarrow> a \<le> c"
  by (auto simp: recent_def filter_empty_conv)

lemma recent_prune:
  "t - WINDOW_MS \<le> c \<Longrightarrow> recent c (requests (pruneOldRequests t r)) = recent c (requests r)"
proof -
  assume "t - WINDOW_MS \<le> c"
  then have "filter (\<lambda>x. c < x) (filter (\<lambda>x. t - WINDOW_MS < x) (requests r))
      = filter (\<lambda>x. c < x) (requests r)"
    by (auto simp: filter_filter intro: filter_cong)
  then show ?thesis by (simp add: recent_def requests_prune)
qed

lemma window_le_recent:
  "length (filter (\<lambda>a. c < a \<and> a \<le> T) A) \<le> recent c A"
proof -
  have "filter (\<lambda>a. c < a \<and> a \<le> T) A = filter (\<lambda>a. a \<le> T) (filter (\<lambda>a. c < a) A)"
    by (auto simp: filter_filter intro: filter_cong)
  then show ?thesis
    unfolding recent_def by (simp del: filter_filter)
qed

lemma covered_later:
  assumes "covered A lo ro" and "lo \<le> t"
  shows "covered A t ro"
  using assms by (auto simp: covered_def split: option.splits if_splits)

text \<open>An admission at \<open>c\<close> when every earlier one is at least a window old.\<close>

lemma admits_first:
  assumes "\<forall>a\<in>set A. a \<le> c - WINDOW_MS" and "admits_ok d A" and "0 \<le> d"
  shows "admits_ok d (A @ [c])"
  unfolding admits_ok_def
proof
  fix T
  show "length (filter (\<lambda>a. T - (WINDOW_MS - d) < a \<and> a \<le> T) (A @ [c])) \<le> MAX_REQUESTS"
  proof (cases "T - (WINDOW_MS - d) < c \<and> c \<le> T")
    case True
    then have "\<forall>a\<in>set A. \<not> (T - (WINDOW_MS - d) < a \<and> a \<le> T)"
      using assms(1,3) by auto
    then have "filter (\<lambda>a. T - (WINDOW_MS - d) < a \<and> a \<le> T) A = []"
      by (simp add: filter_empty_conv)
    with True max_pos show ?thesis by simp
  next
    case False
    with assms(2) show ?thesis by (auto simp: admits_ok_def)
  qed
qed

lemma covered_first:
  assumes "\<forall>a\<in>set A. a \<le> c - WINDOW_MS" and "c \<le> t"
  shows "covered (A @ [c]) t (Some (next_record c t initRecord))"
proof -
  have nr: "next_record c t initRecord =
      \<lparr> requests = [c], violations = 0, banned = False, bannedUntil = 0 \<rparr>"
    using max_pos by (simp add: next_record_def Let_def)
  have "recent x A = 0" if "t - WINDOW_MS \<le> x" for x
    using assms that by (intro recent_zero) auto
  then show ?thesis
    using assms window_pos by (auto simp: covered_def nr)
qed

text \<open>
  A call on a record that is not banned: the first read is \<open>c\<close>, the read of the
  pruning \<open>t\<close>, at most \<open>d\<close> later.
\<close>

lemma step_active:
  assumes cov: "covered A lo (Some r)" and nb: "\<not> banned r"
    and le: "lo \<le> c" and ct: "c \<le> t" and gap: "t - c \<le> d"
    and ok: "admits_ok d A"
  shows "covered (A @ (if length (requests (pruneOldRequests t r)) < MAX_REQUESTS
                        then [c] else [])) t (Some (next_record c t r))"
    and "admits_ok d (A @ (if length (requests (pruneOldRequests t r)) < MAX_REQUESTS
                        then [c] else []))"
proof -
  let ?p = "pruneOldRequests t r"
  from cov nb have bound: "\<forall>a\<in>set A. a \<le> lo"
    and rec: "\<And>x. lo - WINDOW_MS \<le> x \<Longrightarrow> recent x A \<le> recent x (requests r)"
    by (auto simp: covered_def)
  have rec': "recent x A \<le> recent x (requests ?p)" if "t - WINDOW_MS \<le> x" for x
    using rec [of x] that le ct by (simp add: recent_prune)
  show "covered (A @ (if length (requests ?p) < MAX_REQUESTS then [c] else []))
          t (Some (next_record c t r))"
  proof (cases "length (requests ?p) < MAX_REQUESTS")
    case True
    then have nr: "next_record c t r = ?p \<lparr> requests := requests ?p @ [c] \<rparr>"
      by (simp add: next_record_def Let_def)
    show ?thesis
      using True bound le ct nb rec' by (auto simp: covered_def nr)
  next
    case False
    show ?thesis
    proof (cases "BAN_THRESHOLD \<le> violations r + 1")
      case True
      with False have nr: "next_record c t r =
          ?p \<lparr> violations := violations r + 1, banned := True,
                bannedUntil := c + BAN_DURATION_MS \<rparr>"
        by (simp add: next_record_def Let_def)
      show ?thesis
        using False bound le ct ban_longer by (fastforce simp: covered_def nr)
    next
      case nothr: False
      with False have nr: "next_record c t r = ?p \<lparr> violations := violations r + 1 \<rparr>"
        by (simp add: next_record_def Let_def)
      show ?thesis
        using False bound le ct nb rec' by (auto simp: covered_def nr)
    qed
  qed
  show "admits_ok d (A @ (if length (requests ?p) < MAX_REQUESTS then [c] else []))"
  proof (cases "length (requests ?p) < MAX_REQUESTS")
    case False
    with ok show ?thesis by simp
  next
    case True
    have "length (filter (\<lambda>a. T - (WINDOW_MS - d) < a \<and> a \<le> T) (A @ [c])) \<le> MAX_REQUESTS"
      for T
    proof (cases "T - (WINDOW_MS - d) < c \<and> c \<le> T")
      case False
      with ok show ?thesis by (auto simp: admits_ok_def)
    next
      case inw: True
      have "length (filter (\<lambda>a. T - (WINDOW_MS - d) < a \<and> a \<le> T) A)
              \<le> recent (T - (WINDOW_MS - d)) A"
        by (rule window_le_recent)
      also have "\<dots> \<le> recent (T - (WINDOW_MS - d)) (requests ?p)"
        using inw gap by (intro rec') simp
      also have "\<dots> \<le> length (requests ?p)"
        unfolding recent_def by (rule length_filter_le)
      finally show ?thesis using True inw by simp
    qed
    with True show ?thesis by (simp add: admits_ok_def)
  qed
qed

lemma covered_expired:
  assumes "covered A lo (Some r)" and "banned r" and "bannedUntil r \<le> c"
  shows "\<forall>a\<in>set A. a \<le> c - WINDOW_MS"
  using assms by (fastforce simp: covered_def)

lemma covered_absent:
  assumes "covered A lo None" and "lo \<le> c"
  shows "\<forall>a\<in>set A. a \<le> c - WINDOW_MS"
  using assms by (fastforce simp: covered_def)

text \<open>A sweep that reads \<open>n\<close> before the loop and \<open>t\<close> when it prunes the record.\<close>

lemma covered_sweep:
  assumes cov: "covered A lo ro" and le: "lo \<le> n" and nt: "n \<le> t"
  shows "covered A t (case ro of None \<Rightarrow> None
                      | Some r \<Rightarrow> if evicts_at n t r then None
                                  else Some (spec_prune t r))"
proof (cases ro)
  case None
  with cov le nt show ?thesis by (simp add: covered_later)
next
  case (Some r)
  from cov le nt have bound: "\<forall>a\<in>set A. a \<le> t" by (auto simp: covered_def)
  have sp: "spec_prune t r = pruneOldRequests t r" by (simp add: prune_is_spec_prune)
  show ?thesis
  proof (cases "banned r")
    case True
    with cov Some le nt bound show ?thesis
      by (fastforce simp: covered_def evicts_at_def idle_def sp)
  next
    case False
    with cov Some have rec: "\<And>x. lo - WINDOW_MS \<le> x \<Longrightarrow> recent x A \<le> recent x (requests r)"
      by (auto simp: covered_def)
    have rec': "recent x A \<le> recent x (requests (pruneOldRequests t r))"
      if "t - WINDOW_MS \<le> x" for x
      using rec [of x] that le nt by (simp add: recent_prune)
    show ?thesis
    proof (cases "evicts_at n t r")
      case True
      with False have "requests (pruneOldRequests t r) = []"
        by (simp add: evicts_at_def idle_def sp)
      with rec' [of "t - WINDOW_MS"] have "recent (t - WINDOW_MS) A = 0"
        by (simp add: recent_def)
      then have "\<forall>a\<in>set A. a \<le> t - WINDOW_MS"
        by (auto dest: recent_zeroD)
      with True Some bound show ?thesis by (simp add: covered_def)
    next
      case nev: False
      with False Some bound rec' show ?thesis by (auto simp: covered_def sp)
    qed
  qed
qed

lemma checkRateLimit_cases:
  assumes "checkRateLimit k c t s = Inr (d, s')"
  shows "(\<not> truthy (get_prop s k) \<and> allowed d
            \<and> s' = set_prop s k (next_record c t initRecord))
       \<or> (\<exists>r. get_prop s k = Rec r \<and> banned r \<and> c < bannedUntil r
            \<and> \<not> allowed d \<and> s' = s)
       \<or> (\<exists>r. get_prop s k = Rec r \<and> banned r \<and> bannedUntil r \<le> c
            \<and> allowed d \<and> s' = set_prop s k (next_record c t initRecord))
       \<or> (\<exists>r. get_prop s k = Rec r \<and> \<not> banned r
            \<and> (allowed d \<longleftrightarrow> length (requests (pruneOldRequests t r)) < MAX_REQUESTS)
            \<and> s' = set_prop s k (next_record c t r))"
proof (cases "truthy (get_prop s k)")
  case False
  then have "checkRateLimit k c t s = Inr (limit_window k c t s initRecord)"
    by (rule checkRateLimit_fresh)
  with assms have "d = fst (limit_window k c t s initRecord)"
    "s' = snd (limit_window k c t s initRecord)" by simp_all
  with False max_pos show ?thesis by (simp add: limit_window_next)
next
  case True
  show ?thesis
  proof (cases "get_prop s k")
    case Undefined
    with True show ?thesis by simp
  next
    case (Other b)
    with assms True show ?thesis by (simp add: checkRateLimit_def)
  next
    case (Rec r)
    show ?thesis
    proof (cases "banned r")
      case False
      with Rec have "checkRateLimit k c t s = Inr (limit_window k c t s r)"
        by (simp add: checkRateLimit_active)
      with assms have "d = fst (limit_window k c t s r)"
        "s' = snd (limit_window k c t s r)" by simp_all
      with False Rec show ?thesis by (simp add: limit_window_next)
    next
      case ban: True
      show ?thesis
      proof (cases "c < bannedUntil r")
        case True
        with ban Rec assms show ?thesis by (auto simp: checkRateLimit_def)
      next
        case False
        with ban Rec have "checkRateLimit k c t s = Inr (limit_window k c t s initRecord)"
          by (simp add: checkRateLimit_expired)
        with assms have "d = fst (limit_window k c t s initRecord)"
          "s' = snd (limit_window k c t s initRecord)" by simp_all
        with False ban Rec max_pos show ?thesis by (simp add: limit_window_next)
      qed
    qed
  qed
qed

lemma get_prop_plain:
  assumes "proto s = None"
  shows "get_prop s k = Rec r \<longleftrightarrow> map_of (own s) k = Some r"
    and "\<not> truthy (get_prop s k) \<Longrightarrow> map_of (own s) k = None \<and> k \<noteq> ''__proto__''"
  using assms
  by (auto simp: get_prop_def inherited_def split: option.splits if_splits)

lemma set_prop_own:
  "k \<noteq> ''__proto__'' \<or> map_of (own s) k \<noteq> None \<Longrightarrow>
   set_prop s k r = s \<lparr> own := AList.update k r (own s) \<rparr>"
  by (auto simp: set_prop_def)

text \<open>What one call does to a store with the original prototype, key by key.\<close>

lemma request_effect:
  assumes plain: "proto s = None" and dist: "distinct (map fst (own s))"
    and call: "checkRateLimit k' c t s = Inr (d, s')"
  shows "proto s' = None" and "distinct (map fst (own s'))"
    and "k \<noteq> k' \<Longrightarrow> map_of (own s') k = map_of (own s) k"
    and "case map_of (own s) k' of
           None \<Rightarrow> allowed d \<and> map_of (own s') k' = Some (next_record c t initRecord)
         | Some r \<Rightarrow>
             if banned r then
               if c < bannedUntil r then \<not> allowed d \<and> map_of (own s') k' = Some r
               else allowed d \<and> map_of (own s') k' = Some (next_record c t initRecord)
             else (allowed d \<longleftrightarrow> length (requests (pruneOldRequests t r)) < MAX_REQUESTS)
                  \<and> map_of (own s') k' = Some (next_record c t r)"
proof -
  from checkRateLimit_cases [OF call]
  consider
    (fresh) "map_of (own s) k' = None" "allowed d"
      "s' = s \<lparr> own := AList.update k' (next_record c t initRecord) (own s) \<rparr>"
  | (still) r where "map_of (own s) k' = Some r" "banned r" "c < bannedUntil r"
      "\<not> allowed d" "s' = s"
  | (expired) r where "map_of (own s) k' = Some r" "banned r" "bannedUntil r \<le> c"
      "allowed d" "s' = s \<lparr> own := AList.update k' (next_record c t initRecord) (own s) \<rparr>"
  | (active) r where "map_of (own s) k' = Some r" "\<not> banned r"
      "allowed d \<longleftrightarrow> length (requests (pruneOldRequests t r)) < MAX_REQUESTS"
      "s' = s \<lparr> own := AList.update k' (next_record c t r) (own s) \<rparr>"
  proof (elim disjE exE conjE)
    assume a: "\<not> truthy (get_prop s k')" "allowed d"
      "s' = set_prop s k' (next_record c t initRecord)"
    from get_prop_plain(2) [OF plain a(1)] a fresh show thesis
      by (simp add: set_prop_own)
  next
    fix r assume a: "get_prop s k' = Rec r" "banned r" "c < bannedUntil r" "\<not> allowed d" "s' = s"
    with still get_prop_plain(1) [OF plain] show thesis by simp
  next
    fix r assume a: "get_prop s k' = Rec r" "banned r" "bannedUntil r \<le> c" "allowed d"
      "s' = set_prop s k' (next_record c t initRecord)"
    with get_prop_plain(1) [OF plain, of k' r] have "map_of (own s) k' = Some r" by simp
    with a expired show thesis by (simp add: set_prop_own)
  next
    fix r assume a: "get_prop s k' = Rec r" "\<not> banned r"
      "allowed d \<longleftrightarrow> length (requests (pruneOldRequests t r)) < MAX_REQUESTS"
      "s' = set_prop s k' (next_record c t r)"
    with get_prop_plain(1) [OF plain, of k' r] have "map_of (own s) k' = Some r" by simp
    with a active show thesis by (simp add: set_prop_own)
  qed
  then have all: "proto s' = None \<and> distinct (map fst (own s'))
    \<and> (k \<noteq> k' \<longrightarrow> map_of (own s') k = map_of (own s) k)
    \<and> (case map_of (own s) k' of
           None \<Rightarrow> allowed d \<and> map_of (own s') k' = Some (next_record c t initRecord)
         | Some r \<Rightarrow>
             if banned r then
               if c < bannedUntil r then \<not> allowed d \<and> map_of (own s') k' = Some r
               else allowed d \<and> map_of (own s') k' = Some (next_record c t initRecord)
             else (allowed d \<longleftrightarrow> length (requests (pruneOldRequests t r)) < MAX_REQUESTS)
                  \<and> map_of (own s') k' = Some (next_record c t r))"
    using plain dist by cases (simp_all add: update_conv' distinct_update)
  from all show "proto s' = None" by simp
  from all show "distinct (map fst (own s'))" by simp
  from all show "k \<noteq> k' \<Longrightarrow> map_of (own s') k = map_of (own s) k" by simp
  from all show "case map_of (own s) k' of
           None \<Rightarrow> allowed d \<and> map_of (own s') k' = Some (next_record c t initRecord)
         | Some r \<Rightarrow>
             if banned r then
               if c < bannedUntil r then \<not> allowed d \<and> map_of (own s') k' = Some r
               else allowed d \<and> map_of (own s') k' = Some (next_record c t initRecord)
             else (allowed d \<longleftrightarrow> length (requests (pruneOldRequests t r)) < MAX_REQUESTS)
                  \<and> map_of (own s') k' = Some (next_record c t r)" by simp
qed

lemma map_of_swept_absent:
  "k \<notin> fst ` set al \<Longrightarrow>
   map_of (map (\<lambda>(k, r). (k, f k r)) (filter (\<lambda>(k, r). P k r) al)) k = None"
  by (induction al) auto

lemma map_of_swept:
  "distinct (map fst al) \<Longrightarrow>
   map_of (map (\<lambda>(k, r). (k, f k r)) (filter (\<lambda>(k, r). P k r) al)) k =
     (case map_of al k of None \<Rightarrow> None | Some r \<Rightarrow> if P k r then Some (f k r) else None)"
  by (induction al) (auto simp: map_of_swept_absent)

lemma sweep_effect:
  assumes plain: "proto s = None" and dist: "distinct (map fst (own s))"
  shows "\<exists>n s'. cleanup now pt s = Inr (n, s') \<and> proto s' = None
           \<and> distinct (map fst (own s'))
           \<and> map_of (own s') k =
               (case map_of (own s) k of None \<Rightarrow> None
                | Some r \<Rightarrow> if evicts_at now (pt k) r then None
                            else Some (spec_prune (pt k) r))"
proof -
  let ?al = "map (\<lambda>(k, r). (k, spec_prune (pt k) r))
               (filter (\<lambda>(k, r). \<not> evicts_at now (pt k) r) (own s))"
  have keys: "map fst ?al = map fst (filter (\<lambda>(k, r). \<not> evicts_at now (pt k) r) (own s))"
    by (simp add: case_prod_beta comp_def)
  have "distinct (map fst ?al)"
    unfolding keys using dist by (rule distinct_map_filter)
  moreover have "map_of ?al k =
      (case map_of (own s) k of None \<Rightarrow> None
       | Some r \<Rightarrow> if evicts_at now (pt k) r then None else Some (spec_prune (pt k) r))"
    using map_of_swept [OF dist, of "\<lambda>k. spec_prune (pt k)" "\<lambda>k r. \<not> evicts_at now (pt k) r" k]
    by (auto split: option.splits)
  ultimately show ?thesis
    using cleanup_own [OF dist plain, of now pt] plain by simp
qed

text \<open>
  The induction over a run of requests and sweeps: \<open>A\<close> are the admissions of the
  client so far and \<open>lo\<close> the last clock value read for it.
\<close>

lemma admitted_ok:
  assumes "proto s = None" and "distinct (map fst (own s))"
    and "covered A lo (map_of (own s) k)" and "admits_ok d A" and "0 \<le> d"
    and "\<forall>e\<in>set es. is_traffic e \<and> read_gap e \<le> d"
    and "sorted (lo # concat (map (client_reads k) es))"
  shows "admits_ok d (A @ admitted k es s)"
  using assms
proof (induction es arbitrary: s A lo)
  case Nil
  then show ?case by simp
next
  case (Cons e es)
  from Cons.prems(6) have rest: "\<forall>e\<in>set es. is_traffic e \<and> read_gap e \<le> d"
    and cur: "is_traffic e" "read_gap e \<le> d" by simp_all
  show ?case
  proof (cases e)
    case (Sweep n pt)
    with Cons.prems(7) have le: "lo \<le> n" "n \<le> pt k"
      and sorted': "sorted (pt k # concat (map (client_reads k) es))"
      by simp_all
    from sweep_effect [OF Cons.prems(1,2), of n pt k] obtain m s' where
      sw: "cleanup n pt s = Inr (m, s')" "proto s' = None"
        "distinct (map fst (own s'))"
        "map_of (own s') k =
           (case map_of (own s) k of None \<Rightarrow> None
            | Some r \<Rightarrow> if evicts_at n (pt k) r then None else Some (spec_prune (pt k) r))"
      by blast
    have cov: "covered A (pt k) (map_of (own s') k)"
      unfolding sw(4) using Cons.prems(3) le by (rule covered_sweep)
    have "admits_ok d (A @ admitted k es s')"
      using sw(2,3) cov Cons.prems(4,5) rest sorted' by (rule Cons.IH)
    then show ?thesis using Sweep sw(1) by simp
  next
    case (Evaluate k' c t)
    show ?thesis
    proof (cases "checkRateLimit k' c t s")
      case (Inl err)
      with Evaluate Cons.prems(4) show ?thesis by simp
    next
      case (Inr ds)
      obtain dec s' where ds: "ds = (dec, s')" by (cases ds)
      with Inr have call: "checkRateLimit k' c t s = Inr (dec, s')" by simp
      note eff = request_effect [OF Cons.prems(1,2) call]
      let ?new = "if k' = k \<and> allowed dec then [c] else []"
      have adm: "admitted k (e # es) s = ?new @ admitted k es s'"
        using Evaluate call by simp
      show ?thesis
      proof (cases "k' = k")
        case False
        then have same: "map_of (own s') k = map_of (own s) k" using eff(3) [of k] by simp
        from False Evaluate Cons.prems(7)
        have sorted': "sorted (lo # concat (map (client_reads k) es))" by simp
        have "admits_ok d (A @ admitted k es s')"
          using eff(1,2) Cons.prems(3) [folded same] Cons.prems(4,5) rest sorted'
          by (rule Cons.IH)
        with False show ?thesis unfolding adm by simp
      next
        case True
        with Evaluate Cons.prems(7) have le: "lo \<le> c" "c \<le> t"
          and sorted': "sorted (t # concat (map (client_reads k) es))"
          by simp_all
        from this(1,2) have lt: "lo \<le> t" by simp
        from Evaluate \<open>read_gap e \<le> d\<close> have gap: "t - c \<le> d" by simp
        have "covered (A @ ?new) t (map_of (own s') k) \<and> admits_ok d (A @ ?new)"
        proof (cases "map_of (own s) k")
          case None
          with eff(4) True have a: "allowed dec"
            "map_of (own s') k = Some (next_record c t initRecord)" by simp_all
          from Cons.prems(3) None le(1) have old: "\<forall>a\<in>set A. a \<le> c - WINDOW_MS"
            by (intro covered_absent [of A lo]) simp_all
          with a True Cons.prems(4,5) le(2) show ?thesis
            by (simp add: covered_first admits_first)
        next
          case (Some r)
          show ?thesis
          proof (cases "banned r")
            case False
            with eff(4) True Some have a:
              "allowed dec \<longleftrightarrow> length (requests (pruneOldRequests t r)) < MAX_REQUESTS"
              "map_of (own s') k = Some (next_record c t r)" by simp_all
            from Cons.prems(3) Some have cov: "covered A lo (Some r)" by simp
            from step_active [OF cov False le gap Cons.prems(4)] a True show ?thesis
              by simp
          next
            case ban: True
            show ?thesis
            proof (cases "c < bannedUntil r")
              case True
              with eff(4) \<open>k' = k\<close> Some ban have a: "\<not> allowed dec"
                "map_of (own s') k = Some r" by simp_all
              with Cons.prems(3,4) Some lt show ?thesis by (simp add: covered_later)
            next
              case False
              with eff(4) \<open>k' = k\<close> Some ban have a: "allowed dec"
                "map_of (own s') k = Some (next_record c t initRecord)" by simp_all
              from Cons.prems(3) Some have cov: "covered A lo (Some r)" by simp
              from covered_expired [OF cov ban, of c] False
              have old: "\<forall>a\<in>set A. a \<le> c - WINDOW_MS" by simp
              with a \<open>k' = k\<close> Cons.prems(4,5) le(2) show ?thesis
                by (simp add: covered_first admits_first)
            qed
          qed
        qed
        then have "admits_ok d ((A @ ?new) @ admitted k es s')"
          using eff(1,2) Cons.prems(5) rest sorted'
          by (intro Cons.IH [of s' "A @ ?new" t]) simp_all
        then show ?thesis unfolding adm by simp
      qed
    qed
  next
    case (Unban k')
    with cur(1) show ?thesis by simp
  next
    case (Reset k')
    with cur(1) show ?thesis by simp
  next
    case ResetAll
    with cur(1) show ?thesis by simp
  qed
qed

text \<open>
  What the code does keep. Take any store with distinct keys and the original
  prototype, and a run of requests and sweeps in which the clock values read for client
  \<open>k\<close> never decrease and the clock advances by at most \<open>d\<close> between the two reads
  of a call. Then at most \<open>MAX_REQUESTS\<close> admissions of \<open>k\<close> have their timestamp in
  any window \<open>(T - (WINDOW - d), T]\<close>. With \<open>d = 0\<close>, a clock that stands still
  during each call, this is the full window.
\<close>

lemma sliding_window_bound:
  assumes "proto s = None" and "distinct (map fst (own s))"
    and "\<forall>e\<in>set es. is_traffic e \<and> read_gap e \<le> d" and "0 \<le> d"
    and "sorted (concat (map (client_reads k) es))"
  shows "length (filter (\<lambda>a. T - (WINDOW_MS - d) < a \<and> a \<le> T) (admitted k es s))
           \<le> MAX_REQUESTS"
proof -
  obtain lo where lo: "sorted (lo # concat (map (client_reads k) es))"
  proof (cases "concat (map (client_reads k) es)")
    case Nil
    have "sorted (0 # concat (map (client_reads k) es))" unfolding Nil by simp
    then show thesis by (rule that)
  next
    case (Cons x xs)
    with assms(5) have "sorted (x # concat (map (client_reads k) es))" by simp
    then show thesis by (rule that)
  qed
  have "covered [] lo (map_of (own s) k)"
    by (simp add: covered_def recent_def split: option.splits)
  moreover have "admits_ok d []" by (simp add: admits_ok_def)
  ultimately have "admits_ok d ([] @ admitted k es s)"
    using assms(1,2,3,4) lo by (intro admitted_ok [of _ _ lo]) simp_all
  then show ?thesis by (simp add: admits_ok_def)
qed

lemma sliding_window_still_clock:
  assumes "proto s = None" and "distinct (map fst (own s))"
    and "\<forall>e\<in>set es. is_traffic e \<and> read_gap e \<le> 0"
    and "sorted (concat (map (client_reads k) es))"
  shows "length (filter (\<lambda>a. T - WINDOW_MS < a \<and> a \<le> T) (admitted k es s)) \<le> MAX_REQUESTS"
  using sliding_window_bound [OF assms(1,2,3) _ assms(4), of T] by simp

text \<open>
  For instance: ten admissions, a denied call one millisecond before the oldest
  timestamp leaves the window, a sweep, and an admission one millisecond later.
\<close>

lemma sliding_window_example:
  "admitted ''c1''
     (map (\<lambda>t. Evaluate ''c1'' t t) burst_times
      @ [Evaluate ''c1'' 1700000059999 1700000059999,
         Sweep 1700000059999 (\<lambda>_. 1700000059999),
         Evaluate ''c1'' 1700000060000 1700000060000]) clientStore_init
     = burst_times @ [1700000060000]
   \<and> length (filter (\<lambda>a. 1700000060000 - WINDOW_MS < a \<and> a \<le> 1700000060000)
               (burst_times @ [1700000060000])) \<le> MAX_REQUESTS"
proof -
  let ?es = "map (\<lambda>t. Evaluate ''c1'' t t) burst_times
      @ [Evaluate ''c1'' 1700000059999 1700000059999,
         Sweep 1700000059999 (\<lambda>_. 1700000059999),
         Evaluate ''c1'' 1700000060000 1700000060000]"
  have run: "admitted ''c1'' ?es clientStore_init = burst_times @ [1700000060000]"
    by (simp add: burst_times_def clientStore_init_def
        checkRateLimit_def limit_window_def cleanup_def for_in_keys_def object_keys_def
        get_prop_def set_prop_def delete_prop_def
        inherited_def object_prototype_names_def initRecord_def pruneOldRequests_def
        MAX_REQUESTS_def WINDOW_MS_def BAN_THRESHOLD_def Let_def)
  have "length (filter (\<lambda>a. 1700000060000 - WINDOW_MS < a \<and> a \<le> 1700000060000)
               (admitted ''c1'' ?es clientStore_init)) \<le> MAX_REQUESTS"
    by (rule sliding_window_still_clock)
       (simp_all add: clientStore_init_def burst_times_def)
  with run show ?thesis by simp
qed

text \<open>
  C1. The bound fails when the clock advances between the two reads of a call. After
  ten admissions from \<open>1700000000000\<close> on, a call reads \<open>1700000059999\<close> as
  \<open>current\<close>, and \<^verbatim>\<open>pruneOldRequests\<close> reads \<open>1700000060000\<close>: it drops the
  timestamp \<open>1700000000000\<close>, which is still inside the window of \<open>current\<close>, the
  count is 9 and the call is admitted. The window \<open>(T - WINDOW, T]\<close> with
  \<open>T = 1700000059999\<close> then holds \<open>MAX_REQUESTS + 1\<close> admissions of the client.
\<close>

theorem C1_clock_tick_admits_eleven:
  "admitted ''c1'' race_run clientStore_init = burst_times @ [1700000059999]
   \<and> length (filter (\<lambda>a. 1700000059999 - WINDOW_MS < a \<and> a \<le> 1700000059999)
               (admitted ''c1'' race_run clientStore_init)) = MAX_REQUESTS + 1"
proof -
  have run: "admitted ''c1'' race_run clientStore_init = burst_times @ [1700000059999]"
    by (simp add: race_run_def burst_times_def clientStore_init_def
        checkRateLimit_def limit_window_def get_prop_def set_prop_def
        inherited_def object_prototype_names_def initRecord_def pruneOldRequests_def
        MAX_REQUESTS_def WINDOW_MS_def BAN_THRESHOLD_def Let_def)
  show ?thesis
    unfolding run by (simp add: burst_times_def WINDOW_MS_def MAX_REQUESTS_def)
qed

end
